theory Spec2Isabelle
  imports Main "HOL-Library.Word" "HOL-Library.Multiset"
begin

unbundle bit_operations_syntax

section \<open>Data model of \<^verbatim>\<open>interval_tree.hpp\<close>\<close>

text \<open>
  The registry is \<^verbatim>\<open>IntervalTree<InterceptorFn, uintptr_t>\<close>.  Keys are
  \<^verbatim>\<open>uintptr_t\<close> and identifiers are \<^verbatim>\<open>size_t\<close>; both are 64-bit unsigned
  words (the \<^verbatim>\<open>_WIN64\<close> build), so \<open>+\<close> wraps and \<open>0\<close> is the least key.
  The value type \<^verbatim>\<open>TValue\<close> stays a type parameter \<open>'v\<close>.

  The fields of \<^verbatim>\<open>struct Interval\<close> are \<^verbatim>\<open>start, end, value, id\<close>; they carry the
  prefix \<open>i\<close> here because \<^verbatim>\<open>end\<close> and \<^verbatim>\<open>value\<close> are reserved words and \<open>id\<close> is the
  identity function of HOL.
\<close>

type_synonym uintptr_t = "64 word"
type_synonym size_t = "64 word"

record 'v Interval =
  istart :: uintptr_t
  iend :: uintptr_t
  ivalue :: 'v
  iid :: size_t

text \<open>
  \<^verbatim>\<open>std::unique_ptr<Node>\<close> is an owning, nullable pointer: a node is owned by
  exactly one parent, so the heap of nodes is a tree value.  \<open>Null\<close> is the
  empty pointer; \<open>Node intervals height max_end left right\<close> is a \<^verbatim>\<open>struct Node\<close>
  with its five fields in declaration order.  \<^verbatim>\<open>int height\<close> is an unbounded
  \<open>int\<close>: it is bounded by the depth of the tree and cannot reach \<open>2^31\<close>.
\<close>

datatype 'v node =
  Null
| Node "'v Interval list" int uintptr_t "'v node" "'v node"

text \<open>
  Dereferencing the empty pointer and \<^verbatim>\<open>front()\<close> of an empty vector are
  undefined behaviour in the source.  The model leaves exactly these
  cases unspecified (no equation for \<open>Null\<close> in functions that dereference,
  \<open>hd []\<close> for \<^verbatim>\<open>front()\<close>), so no theorem below can depend on what happens
  there; the invariants \<open>avl\<close> and \<open>uniform\<close>, which hold after every sequence of
  operations, show that they are not reached.
\<close>

fun intervals :: "'v node \<Rightarrow> 'v Interval list" where
  "intervals (Node ivs h me l r) = ivs"

fun left :: "'v node \<Rightarrow> 'v node" where
  "left (Node ivs h me l r) = l"

fun right :: "'v node \<Rightarrow> 'v node" where
  "right (Node ivs h me l r) = r"

text \<open>\<^verbatim>\<open>node->intervals.front().start\<close>, the key of a node.\<close>

fun key :: "'v node \<Rightarrow> uintptr_t" where
  "key (Node ivs h me l r) = istart (hd ivs)"

text \<open>\<^verbatim>\<open>height(node)\<close>: \<^verbatim>\<open>node ? node->height : 0\<close>.\<close>

fun height :: "'v node \<Rightarrow> int" where
  "height Null = 0"
| "height (Node ivs h me l r) = h"

text \<open>\<^verbatim>\<open>get_balance(node)\<close>.\<close>

fun get_balance :: "'v node \<Rightarrow> int" where
  "get_balance Null = 0"
| "get_balance (Node ivs h me l r) = height l - height r"

text \<open>\<^verbatim>\<open>max_end(node)\<close>: \<^verbatim>\<open>node ? node->max_end : 0\<close>.\<close>

fun max_end :: "'v node \<Rightarrow> uintptr_t" where
  "max_end Null = 0"
| "max_end (Node ivs h me l r) = me"

text \<open>
  \<^verbatim>\<open>update_max_end(node)\<close>.  \<open>node_max_end\<close> is the value it computes: start
  from the front interval's end, take the maximum over the node's
  intervals, then over the two children's aggregates.  \<open>update_max_end\<close>
  stores it in the node.
\<close>

definition node_max_end :: "'v Interval list \<Rightarrow> 'v node \<Rightarrow> 'v node \<Rightarrow> uintptr_t" where
  "node_max_end ivs l r =
     (let me1 = iend (hd ivs);
          me2 = foldl (\<lambda>m interval. max m (iend interval)) me1 ivs
      in max (max me2 (max_end l)) (max_end r))"

fun update_max_end :: "'v node \<Rightarrow> 'v node" where
  "update_max_end (Node ivs h me l r) = Node ivs h (node_max_end ivs l r) l r"

text \<open>
  \<^verbatim>\<open>rotate_left(node)\<close>: \<open>node->right\<close> becomes the root, \<open>node\<close> its left
  child.  Both heights are recomputed; \<^verbatim>\<open>update_max_end\<close> is called on the
  new root only, so the demoted node keeps the \<open>max_end\<close> it had.
\<close>

fun rotate_left :: "'v node \<Rightarrow> 'v node" where
  "rotate_left (Node ivs h me l (Node rivs rh rme rl rr)) =
     (let n = Node ivs (max (height l) (height rl) + 1) me l rl
      in update_max_end (Node rivs (max (height n) (height rr) + 1) rme n rr))"

fun rotate_right :: "'v node \<Rightarrow> 'v node" where
  "rotate_right (Node ivs h me (Node livs lh lme ll lr) r) =
     (let n = Node ivs (max (height lr) (height r) + 1) me lr r
      in update_max_end (Node livs (max (height ll) (height n) + 1) lme ll n))"

text \<open>
  The tail of the private \<^verbatim>\<open>insert\<close> (lines 129-162): height, \<open>max_end\<close>,
  balance factor, then the four rotation cases in source order, each
  decided by comparing the inserted key with the child's key.
\<close>

definition insert_rebalance :: "'v node \<Rightarrow> 'v Interval \<Rightarrow> 'v node" where
  "insert_rebalance node0 i =
     (case node0 of Node ivs h me l r \<Rightarrow>
        (let node = update_max_end (Node ivs (1 + max (height l) (height r)) me l r);
             balance = height (left node) - height (right node)
         in if balance > 1 \<and> istart i < key (left node) then rotate_right node
            else if balance < -1 \<and> istart i > key (right node) then rotate_left node
            else if balance > 1 \<and> istart i > key (left node) then
              (case node of Node ivs' h' me' l' r' \<Rightarrow>
                 rotate_right (Node ivs' h' me' (rotate_left l') r'))
            else if balance < -1 \<and> istart i < key (right node) then
              (case node of Node ivs' h' me' l' r' \<Rightarrow>
                 rotate_left (Node ivs' h' me' l' (rotate_right r')))
            else node))"

text \<open>The private \<^verbatim>\<open>insert(node, i)\<close>.\<close>

fun insert_node :: "'v node \<Rightarrow> 'v Interval \<Rightarrow> 'v node" where
  "insert_node Null i = Node [i] 1 (iend i) Null Null"
| "insert_node (Node ivs h me l r) i =
     (if istart i < istart (hd ivs) then
        insert_rebalance (Node ivs h me (insert_node l i) r) i
      else if istart i > istart (hd ivs) then
        insert_rebalance (Node ivs h me l (insert_node r i)) i
      else
        insert_rebalance (Node (ivs @ [i]) h me l r) i)"

text \<open>\<^verbatim>\<open>min_value_node(node)\<close>: the leftmost node, by the loop on \<open>current->left\<close>.\<close>

fun min_value_node :: "'v node \<Rightarrow> 'v node" where
  "min_value_node (Node ivs h me l r) =
     (if l \<noteq> Null then min_value_node l else Node ivs h me l r)"

text \<open>
  The tail of the private \<^verbatim>\<open>erase\<close> (lines 238-276): return at once on the
  empty pointer, else height, \<open>max_end\<close>, balance factor and the four
  rotation cases, each decided by the child's balance factor.
\<close>

fun erase_rebalance :: "'v node \<Rightarrow> 'v node" where
  "erase_rebalance Null = Null"
| "erase_rebalance (Node ivs h me l r) =
     (let root = update_max_end (Node ivs (1 + max (height l) (height r)) me l r);
          balance = get_balance root
      in if balance > 1 \<and> get_balance (left root) \<ge> 0 then rotate_right root
         else if balance > 1 \<and> get_balance (left root) < 0 then
           (case root of Node ivs' h' me' l' r' \<Rightarrow>
              rotate_right (Node ivs' h' me' (rotate_left l') r'))
         else if balance < -1 \<and> get_balance (right root) \<le> 0 then rotate_left root
         else if balance < -1 \<and> get_balance (right root) > 0 then
           (case root of Node ivs' h' me' l' r' \<Rightarrow>
              rotate_left (Node ivs' h' me' l' (rotate_right r')))
         else root)"

text \<open>
  The loop of lines 201-207: remove the first interval whose id matches
  and report that one was found (\<open>Some\<close>); \<open>None\<close> when the loop ends
  without a match and the vector is unchanged.
\<close>

fun erase_by_id :: "'v Interval list \<Rightarrow> size_t \<Rightarrow> 'v Interval list option" where
  "erase_by_id [] ident = None"
| "erase_by_id (x # xs) ident =
     (if iid x = ident then Some xs
      else map_option (\<lambda>ys. x # ys) (erase_by_id xs ident))"

text \<open>
  The private \<^verbatim>\<open>erase(root, key, id)\<close>.  It also updates the member
  \<^verbatim>\<open>id_to_node_\<close>, which is threaded through as the last argument and
  returned with the new subtree.  The side index loses \<open>id\<close> only in the
  branch for a node with several intervals.  In the branch for two
  children the recursive call passes the successor's key together with
  the caller's \<open>id\<close>.
\<close>

fun erase_node ::
  "'v node \<Rightarrow> uintptr_t \<Rightarrow> size_t \<Rightarrow> (size_t \<rightharpoonup> 'v Interval)
     \<Rightarrow> 'v node \<times> (size_t \<rightharpoonup> 'v Interval)" where
  "erase_node Null k ident m = (Null, m)"
| "erase_node (Node ivs h me l r) k ident m =
     (if k < istart (hd ivs) then
        (case erase_node l k ident m of (l', m') \<Rightarrow>
           (erase_rebalance (Node ivs h me l' r), m'))
      else if k > istart (hd ivs) then
        (case erase_node r k ident m of (r', m') \<Rightarrow>
           (erase_rebalance (Node ivs h me l r'), m'))
      else if length ivs > 1 then
        (case erase_by_id ivs ident of
           Some ivs' \<Rightarrow> (erase_rebalance (Node ivs' h me l r), m(ident := None))
         | None \<Rightarrow> (erase_rebalance (Node ivs h me l r), m))
      else if l = Null \<or> r = Null then
        (let temp = (if l \<noteq> Null then l else r)
         in if temp = Null then (erase_rebalance Null, m)
            else (erase_rebalance (if l \<noteq> Null then l else r), m))
      else
        (let temp = min_value_node r;
             ivs' = hd (intervals temp) # tl ivs
         in case erase_node r (istart (hd (intervals temp))) ident m of (r', m') \<Rightarrow>
              (erase_rebalance (Node ivs' h me l r'), m')))"

text \<open>The private \<^verbatim>\<open>query(node, point)\<close>.\<close>

fun query_node :: "'v node \<Rightarrow> uintptr_t \<Rightarrow> 'v Interval list" where
  "query_node Null point = []"
| "query_node (Node ivs h me l r) point =
     (let result = (if istart (hd ivs) \<le> point
                    then filter (\<lambda>interval. point \<le> iend interval) ivs else []);
          result = (if l \<noteq> Null \<and> max_end l \<ge> point
                    then result @ query_node l point else result);
          result = (if r \<noteq> Null \<and> istart (hd ivs) \<le> point
                    then result @ query_node r point else result)
      in result)"

subsection \<open>The class \<^verbatim>\<open>IntervalTree\<close> and its public operations\<close>

text \<open>
  The members \<^verbatim>\<open>root_\<close>, \<^verbatim>\<open>next_id_\<close> and \<^verbatim>\<open>id_to_node_\<close> (the side index from id
  to the interval as inserted).  The public overloads \<^verbatim>\<open>insert\<close>, \<^verbatim>\<open>erase\<close>,
  \<^verbatim>\<open>query\<close> and \<^verbatim>\<open>empty\<close> carry the prefix \<open>tree_\<close>.
\<close>

record 'v IntervalTree =
  root :: "'v node"
  next_id :: size_t
  id_to_node :: "size_t \<rightharpoonup> 'v Interval"

definition new_tree :: "'v IntervalTree" where
  "new_tree = \<lparr> root = Null, next_id = 0, id_to_node = Map.empty \<rparr>"

definition tree_insert :: "'v Interval \<Rightarrow> 'v IntervalTree \<Rightarrow> size_t \<times> 'v IntervalTree" where
  "tree_insert i0 t =
     (let i = i0\<lparr>iid := next_id t\<rparr>
      in (iid i,
          t\<lparr>next_id := next_id t + 1,
            id_to_node := (id_to_node t)(iid i \<mapsto> i),
            root := insert_node (root t) i\<rparr>))"

definition tree_erase :: "size_t \<Rightarrow> 'v IntervalTree \<Rightarrow> 'v IntervalTree" where
  "tree_erase ident t =
     (case id_to_node t ident of
        None \<Rightarrow> t
      | Some e \<Rightarrow>
          (case erase_node (root t) (istart e) ident (id_to_node t) of (r, m) \<Rightarrow>
             t\<lparr>root := r, id_to_node := m\<rparr>))"

definition tree_query :: "'v IntervalTree \<Rightarrow> uintptr_t \<Rightarrow> 'v Interval list" where
  "tree_query t point = query_node (root t) point"

definition tree_empty :: "'v IntervalTree \<Rightarrow> bool" where
  "tree_empty t = (root t = Null)"

text \<open>
  A sequence of public operations on a fresh registry.  \<open>Insert s e v\<close> is
  \<^verbatim>\<open>insert({s, e, v})\<close> (the id field is assigned by \<^verbatim>\<open>insert\<close>), \<open>Erase n\<close> is
  \<^verbatim>\<open>erase(n)\<close>.
\<close>

datatype 'v tree_op = Insert uintptr_t uintptr_t 'v | Erase size_t

fun apply_op :: "'v IntervalTree \<Rightarrow> 'v tree_op \<Rightarrow> 'v IntervalTree" where
  "apply_op t (Insert s e v) =
     snd (tree_insert \<lparr>istart = s, iend = e, ivalue = v, iid = 0\<rparr> t)"
| "apply_op t (Erase n) = tree_erase n t"

definition run :: "'v tree_op list \<Rightarrow> 'v IntervalTree" where
  "run ops = foldl apply_op new_tree ops"

section \<open>Data model of \<^verbatim>\<open>libdatamon.cpp\<close>\<close>

text \<open>
  The operating system is outside the repository.  Its calls are fields
  of a record \<open>os_api\<close> over an abstract state \<open>'w\<close> of the operating system
  (what \<^verbatim>\<open>VirtualQuery\<close> reads and \<^verbatim>\<open>VirtualProtect\<close> changes):
  \<^item> \<^verbatim>\<open>VirtualQuery\<close> returns the region information, or \<open>None\<close> when the call
    returns \<open>0\<close>;
  \<^item> \<^verbatim>\<open>VirtualProtect\<close> returns the new state, or \<open>None\<close> when the call fails;
  \<^item> \<^verbatim>\<open>AddVectoredExceptionHandler\<close> returns the handle (\<open>0\<close> is \<^verbatim>\<open>nullptr\<close>);
  \<^item> \<^verbatim>\<open>RemoveVectoredExceptionHandler\<close>, whose result the source ignores.
  Of \<^verbatim>\<open>MEMORY_BASIC_INFORMATION\<close> only the three fields the source reads are
  kept.  The constants are those of the Windows headers.
\<close>

type_synonym DWORD = "32 word"

definition PAGE_GUARD :: DWORD where "PAGE_GUARD = 0x100"

definition STATUS_GUARD_PAGE_VIOLATION :: DWORD where "STATUS_GUARD_PAGE_VIOLATION = 0x80000001"

definition STATUS_SINGLE_STEP :: DWORD where "STATUS_SINGLE_STEP = 0x80000004"

definition EXCEPTION_CONTINUE_EXECUTION :: int where "EXCEPTION_CONTINUE_EXECUTION = -1"

definition EXCEPTION_CONTINUE_SEARCH :: int where "EXCEPTION_CONTINUE_SEARCH = 0"

record MEMORY_BASIC_INFORMATION =
  BaseAddress :: uintptr_t
  RegionSize :: size_t
  Protect :: DWORD

record 'w os_api =
  VirtualQuery :: "'w \<Rightarrow> uintptr_t \<Rightarrow> MEMORY_BASIC_INFORMATION option"
  VirtualProtect :: "'w \<Rightarrow> uintptr_t \<Rightarrow> size_t \<Rightarrow> DWORD \<Rightarrow> 'w option"
  AddVectoredExceptionHandler :: "'w \<Rightarrow> uintptr_t \<times> 'w"
  RemoveVectoredExceptionHandler :: "'w \<Rightarrow> uintptr_t \<Rightarrow> 'w"

text \<open>
  The three \<^verbatim>\<open>std::runtime_error\<close> exceptions of the source, named by their
  messages.
\<close>

datatype runtime_error =
  Failed_to_query_memory
| Failed_to_protect_memory
| Failed_to_create_vectored_exception_handler

text \<open>
  \<^verbatim>\<open>protect_memory(address, size, protection_modifier)\<close>.  The loop
  \<^verbatim>\<open>while (start < end)\<close> advances by the region size the operating system
  reports, so it need not terminate (a region size of \<open>0\<close>); it is a partial
  function in the option monad, where \<open>None\<close> is a loop that never returns.
  A returned value is the pair of the outcome (\<open>Inl\<close> the exception thrown,
  \<open>Inr ()\<close> normal return) and the state of the operating system at that
  point.  \<open>end_addr\<close> is the local \<^verbatim>\<open>end\<close>; \<open>sz\<close> is \<^verbatim>\<open>size\<close>.
\<close>

partial_function (option) protect_memory_loop ::
  "'w os_api \<Rightarrow> (DWORD \<Rightarrow> DWORD) \<Rightarrow> size_t \<Rightarrow> uintptr_t \<Rightarrow> uintptr_t \<Rightarrow> 'w
     \<Rightarrow> ((runtime_error + unit) \<times> 'w) option" where
  "protect_memory_loop api protection_modifier sz start end_addr w =
     (if start < end_addr then
        (case VirtualQuery api w start of
           None \<Rightarrow> Some (Inl Failed_to_query_memory, w)
         | Some mbi \<Rightarrow>
             (let old_protection = Protect mbi;
                  new_protection = protection_modifier old_protection
              in if old_protection \<noteq> new_protection then
                   (case VirtualProtect api w (BaseAddress mbi) (min sz (RegionSize mbi))
                           new_protection of
                      None \<Rightarrow> Some (Inl Failed_to_protect_memory, w)
                    | Some w' \<Rightarrow>
                        protect_memory_loop api protection_modifier sz
                          (start + RegionSize mbi) end_addr w')
                 else protect_memory_loop api protection_modifier sz
                        (start + RegionSize mbi) end_addr w))
      else Some (Inr (), w))"

definition protect_memory ::
  "'w os_api \<Rightarrow> uintptr_t \<Rightarrow> size_t \<Rightarrow> (DWORD \<Rightarrow> DWORD) \<Rightarrow> 'w
     \<Rightarrow> ((runtime_error + unit) \<times> 'w) option" where
  "protect_memory api address sz protection_modifier w =
     protect_memory_loop api protection_modifier sz address (address + sz) w"

text \<open>
  \<^verbatim>\<open>PEXCEPTION_POINTERS\<close>: the fields the handler reads
  (\<^verbatim>\<open>ExceptionRecord->ExceptionCode\<close>, \<^verbatim>\<open>ExceptionInformation[0]\<close> and \<^verbatim>\<open>[1]\<close>,
  \<^verbatim>\<open>ContextRecord->XIP\<close>) and the one it writes (\<^verbatim>\<open>ContextRecord->EFlags\<close>).
\<close>

record exception_pointers =
  ExceptionCode :: DWORD
  ExceptionInformation0 :: uintptr_t
  ExceptionInformation1 :: uintptr_t
  XIP :: uintptr_t
  EFlags :: DWORD

text \<open>
  The global state of the library: \<^verbatim>\<open>veh_refcount\<close>, \<^verbatim>\<open>veh_handle\<close>, the static
  \<^verbatim>\<open>interval_tree()\<close>, and the \<^verbatim>\<open>thread_local last_data_address\<close> of the handler
  as one value per thread (threads are numbered by \<open>nat\<close>), together with the
  state of the operating system.  Every function below runs under
  \<^verbatim>\<open>veh_mutex()\<close> from its first to its last statement, so calls are atomic
  steps on this state.  \<open>new_process\<close> is the state at program start.
\<close>

record ('v, 'w) process =
  veh_refcount :: size_t
  veh_handle :: uintptr_t
  interval_tree :: "'v IntervalTree"
  last_data_address :: "nat \<Rightarrow> uintptr_t"
  os :: 'w

definition new_process :: "'w \<Rightarrow> ('v, 'w) process" where
  "new_process w =
     \<lparr>veh_refcount = 0, veh_handle = 0, interval_tree = new_tree,
      last_data_address = (\<lambda>tid. 0), os = w\<rparr>"

text \<open>
  A call of an interceptor: the function pointer stored in the interval and
  its three arguments \<^verbatim>\<open>(accessing_address, read, data)\<close>.  What the callee
  does is outside the library; the handler's model returns the calls it
  makes, in order.
\<close>

type_synonym 'v call = "'v \<times> uintptr_t \<times> bool \<times> uintptr_t"

text \<open>
  The vectored exception handler \<^verbatim>\<open>handler(exception_pointers)\<close>, run by thread
  \<open>tid\<close>.  It returns the disposition (or the exception that escapes from
  \<^verbatim>\<open>protect_memory\<close>), the exception record with the context it may have
  changed, the new global state and the interceptor calls made.
\<close>

definition handler ::
  "'w os_api \<Rightarrow> nat \<Rightarrow> exception_pointers \<Rightarrow> ('v, 'w) process
     \<Rightarrow> ((runtime_error + int) \<times> exception_pointers \<times> ('v, 'w) process \<times> 'v call list) option"
  where
  "handler api tid ep g =
     (if tree_empty (interval_tree g) then Some (Inr EXCEPTION_CONTINUE_SEARCH, ep, g, [])
      else if ExceptionCode ep = STATUS_GUARD_PAGE_VIOLATION then
        (let accessing_address = XIP ep;
             read = (ExceptionInformation0 ep = 0);
             data_address = ExceptionInformation1 ep;
             interceptors = tree_query (interval_tree g) data_address;
             calls = map (\<lambda>i. (ivalue i, accessing_address, read, data_address)) interceptors;
             ep' = ep\<lparr>EFlags := EFlags ep OR 0x100\<rparr>;
             g' = g\<lparr>last_data_address := (last_data_address g)(tid := data_address)\<rparr>
         in Some (Inr EXCEPTION_CONTINUE_EXECUTION, ep', g', calls))
      else if last_data_address g tid \<noteq> 0 \<and> ExceptionCode ep = STATUS_SINGLE_STEP then
        (case protect_memory api (last_data_address g tid) 1
                (\<lambda>protect. protect OR PAGE_GUARD) (os g) of
           None \<Rightarrow> None
         | Some (Inl e, w') \<Rightarrow> Some (Inl e, ep, g\<lparr>os := w'\<rparr>, [])
         | Some (Inr u, w') \<Rightarrow>
             Some (Inr EXCEPTION_CONTINUE_EXECUTION, ep,
                   g\<lparr>os := w', last_data_address := (last_data_address g)(tid := 0)\<rparr>, []))
      else Some (Inr EXCEPTION_CONTINUE_SEARCH, ep, g, []))"

text \<open>
  \<^verbatim>\<open>class Datamon\<close> with its four members (prefix \<open>dm_\<close>), its constructor and
  its destructor.  The constructor returns \<open>Inl\<close> for the exception it throws,
  together with the global state at the throw: the source has no handler that
  would undo the steps already taken.  The aggregate
  \<^verbatim>\<open>{address_, address_ + size_, interceptor_}\<close> leaves \<open>id\<close> zero-initialised.
  An exception that leaves \<^verbatim>\<open>protect_memory\<close> inside the destructor ends the
  program; the destructor's model returns it as \<open>Inl\<close> with the state at
  that point.
\<close>

record 'v Datamon =
  dm_address :: uintptr_t
  dm_size :: size_t
  dm_interceptor :: 'v
  dm_interceptor_entry_id :: size_t

definition Datamon_ctor ::
  "'w os_api \<Rightarrow> uintptr_t \<Rightarrow> size_t \<Rightarrow> 'v \<Rightarrow> ('v, 'w) process
     \<Rightarrow> ((runtime_error + 'v Datamon) \<times> ('v, 'w) process) option" where
  "Datamon_ctor api address sz interceptor g =
     (let g1 = (if veh_refcount g = 0 then
                  (case AddVectoredExceptionHandler api (os g) of (h, w') \<Rightarrow>
                     g\<lparr>veh_handle := h, os := w'\<rparr>)
                else g)
      in if veh_refcount g = 0 \<and> veh_handle g1 = 0 then
           Some (Inl Failed_to_create_vectored_exception_handler, g1)
         else
           (let g2 = g1\<lparr>veh_refcount := veh_refcount g1 + 1\<rparr>;
                (ident, t') = tree_insert \<lparr>istart = address, iend = address + sz,
                                ivalue = interceptor, iid = 0\<rparr> (interval_tree g2);
                g3 = g2\<lparr>interval_tree := t'\<rparr>
            in case protect_memory api address sz (\<lambda>protect. protect OR PAGE_GUARD) (os g3) of
                 None \<Rightarrow> None
               | Some (Inl e, w') \<Rightarrow> Some (Inl e, g3\<lparr>os := w'\<rparr>)
               | Some (Inr u, w') \<Rightarrow>
                   Some (Inr \<lparr>dm_address = address, dm_size = sz, dm_interceptor = interceptor,
                              dm_interceptor_entry_id = ident\<rparr>,
                         g3\<lparr>os := w'\<rparr>)))"

definition Datamon_dtor ::
  "'w os_api \<Rightarrow> 'v Datamon \<Rightarrow> ('v, 'w) process
     \<Rightarrow> ((runtime_error + unit) \<times> ('v, 'w) process) option" where
  "Datamon_dtor api d g =
     (case protect_memory api (dm_address d) (dm_size d)
             (\<lambda>protect. protect AND NOT PAGE_GUARD) (os g) of
        None \<Rightarrow> None
      | Some (Inl e, w') \<Rightarrow> Some (Inl e, g\<lparr>os := w'\<rparr>)
      | Some (Inr u, w') \<Rightarrow>
          (let g1 = g\<lparr>os := w',
                      interval_tree := tree_erase (dm_interceptor_entry_id d) (interval_tree g)\<rparr>;
               g2 = g1\<lparr>veh_refcount := veh_refcount g1 - 1\<rparr>;
               g3 = (if veh_refcount g2 = 0 \<and> veh_handle g2 \<noteq> 0 then
                       g2\<lparr>os := RemoveVectoredExceptionHandler api (os g2) (veh_handle g2),
                          veh_handle := 0\<rparr>
                     else g2)
           in Some (Inr (), g3)))"

section \<open>Invariants and properties\<close>

text \<open>
  \<open>avl\<close>: at every node the stored height is one more than the larger
  stored height of the children, and the two differ by at most one.
  \<open>depth\<close> is the true height; \<open>balanced\<close> states the balance property for the
  true heights and for \<^verbatim>\<open>get_balance\<close>.
\<close>

fun avl :: "'v node \<Rightarrow> bool" where
  "avl Null = True"
| "avl (Node ivs h me l r) =
     (avl l \<and> avl r \<and> h = 1 + max (height l) (height r)
      \<and> height l - height r \<le> 1 \<and> height r - height l \<le> 1)"

fun depth :: "'v node \<Rightarrow> int" where
  "depth Null = 0"
| "depth (Node ivs h me l r) = 1 + max (depth l) (depth r)"

fun balanced :: "'v node \<Rightarrow> bool" where
  "balanced Null = True"
| "balanced (Node ivs h me l r) =
     (depth l - depth r \<in> {-1, 0, 1}
      \<and> get_balance (Node ivs h me l r) \<in> {-1, 0, 1}
      \<and> balanced l \<and> balanced r)"

text \<open>
  \<open>node_lists\<close>: the interval vectors of the nodes in in-order;
  \<open>all_intervals\<close>: the intervals stored in the tree, in in-order;
  \<open>keys\<close>: the keys of the nodes in in-order.
\<close>

fun node_lists :: "'v node \<Rightarrow> 'v Interval list list" where
  "node_lists Null = []"
| "node_lists (Node ivs h me l r) = node_lists l @ ivs # node_lists r"

definition all_intervals :: "'v node \<Rightarrow> 'v Interval list" where
  "all_intervals t = concat (node_lists t)"

definition keys :: "'v node \<Rightarrow> uintptr_t list" where
  "keys t = map (\<lambda>ivs. istart (hd ivs)) (node_lists t)"

text \<open>
  \<open>uniform\<close>: no node has an empty vector and all intervals of a node share
  the start of its front interval.
  \<open>sorted_starts\<close>: the starts are weakly increasing in in-order.
  \<open>bst\<close>: the keys of the nodes strictly increase in in-order, the order of
  the data model.
  \<open>upper\<close>: every \<open>max_end\<close> field is an upper bound of the ends of the node's
  intervals and of the children's fields.
  \<open>max_end_exact\<close>: the \<open>max_end\<close> invariant as the data model states it, the
  field equals that maximum.
\<close>

definition uniform :: "'v node \<Rightarrow> bool" where
  "uniform t =
     (\<forall>ivs \<in> set (node_lists t). ivs \<noteq> [] \<and> (\<forall>j \<in> set ivs. istart (hd ivs) = istart j))"

definition sorted_starts :: "'v node \<Rightarrow> bool" where
  "sorted_starts t = sorted (map istart (all_intervals t))"

definition bst :: "'v node \<Rightarrow> bool" where
  "bst t = sorted_wrt (<) (keys t)"

fun upper :: "'v node \<Rightarrow> bool" where
  "upper Null = True"
| "upper (Node ivs h me l r) =
     (ivs \<noteq> [] \<and> (\<forall>j \<in> set ivs. iend j \<le> me) \<and> max_end l \<le> me \<and> max_end r \<le> me
      \<and> upper l \<and> upper r)"

fun max_end_exact :: "'v node \<Rightarrow> bool" where
  "max_end_exact Null = True"
| "max_end_exact (Node ivs h me l r) =
     (me = fold max (map iend ivs) (max (max_end l) (max_end r))
      \<and> max_end_exact l \<and> max_end_exact r)"

definition tree_inv :: "'v node \<Rightarrow> bool" where
  "tree_inv t = (avl t \<and> uniform t \<and> sorted_starts t \<and> upper t)"

text \<open>
  Auxiliary notions of the balance proof.  \<open>grown t i\<close>: \<open>t\<close> is a node whose key
  differs from the start of \<open>i\<close> and whose subtree on the side of \<open>i\<close> is the
  higher one.  \<open>ins_pre\<close> and \<open>era_pre\<close>: what holds of the two children when
  the tail of \<^verbatim>\<open>insert\<close> and of \<^verbatim>\<open>erase\<close> runs.
\<close>

definition grown :: "'v node \<Rightarrow> 'v Interval \<Rightarrow> bool" where
  "grown t i =
     (\<exists>ivs h me l r. t = Node ivs h me l r \<and> istart i \<noteq> istart (hd ivs)
        \<and> (istart i < istart (hd ivs) \<longrightarrow> height l = height r + 1)
        \<and> (istart i > istart (hd ivs) \<longrightarrow> height r = height l + 1))"

definition ins_pre :: "'v node \<Rightarrow> 'v node \<Rightarrow> 'v Interval \<Rightarrow> bool" where
  "ins_pre l r i =
     (avl l \<and> avl r \<and>
      (height l - height r \<le> 1 \<and> height r - height l \<le> 1
       \<or> height l - height r = 2 \<and> grown l i
       \<or> height r - height l = 2 \<and> grown r i))"

definition era_pre :: "'v node \<Rightarrow> 'v node \<Rightarrow> bool" where
  "era_pre l r = (avl l \<and> avl r \<and> height l - height r \<le> 2 \<and> height r - height l \<le> 2)"

text \<open>
  \<open>is_insert\<close> tells the inserts among the operations; \<open>inserted n ops\<close> lists
  the intervals that the inserts of \<open>ops\<close> store, with the ids they are
  given when the counter starts at \<open>n\<close>.
\<close>

fun is_insert :: "'v tree_op \<Rightarrow> bool" where
  "is_insert (Insert s e v) = True"
| "is_insert (Erase n) = False"

fun inserted :: "size_t \<Rightarrow> 'v tree_op list \<Rightarrow> 'v Interval list" where
  "inserted n [] = []"
| "inserted n (Insert s e v # ops) =
     \<lparr>istart = s, iend = e, ivalue = v, iid = n\<rparr> # inserted (n + 1) ops"
| "inserted n (Erase k # ops) = inserted n ops"

subsection \<open>Concrete inputs\<close>

text \<open>
  An operating system with one region of \<open>0x1000\<close> bytes at \<open>0x10000\<close> whose
  state is the protection of that region, and one where every query fails.
  Fault records for an access violation, a single-step trap and a guard-page
  violation at a given address.  \<open>watching ops tid a\<close> is a process with
  reference count \<open>1\<close> whose registry is \<open>run ops\<close> and whose thread \<open>tid\<close> has
  recorded the address \<open>a\<close>.  \<open>failed_create_state\<close> is the state a failed
  creation leaves; \<open>armed_after_destroy\<close> is the state after the only session
  was destroyed while thread \<open>0\<close> had an address recorded;
  \<open>shared_key_registry\<close> holds two intervals in one node;
  \<open>successor_with_two\<close> builds a root with two children whose in-order
  successor holds two intervals; \<open>reused_key_ops\<close> continues it with
  \<^verbatim>\<open>erase(0)\<close>, an insert of \<open>[20,50]\<close> (id 4) and \<^verbatim>\<open>erase(2)\<close>.
  \<open>destroyed_session_process\<close> is a process with four sessions created, whose
  interceptors are numbered by their ids, after the sessions with ids 0 and 2
  were destroyed.
\<close>

definition one_region_os :: "DWORD os_api" where
  "one_region_os =
     \<lparr>VirtualQuery = (\<lambda>w a. Some \<lparr>BaseAddress = 0x10000, RegionSize = 0x1000, Protect = w\<rparr>),
      VirtualProtect = (\<lambda>w base sz p. Some p),
      AddVectoredExceptionHandler = (\<lambda>w. (1, w)),
      RemoveVectoredExceptionHandler = (\<lambda>w h. w)\<rparr>"

definition unqueryable_os :: "DWORD os_api" where
  "unqueryable_os = one_region_os\<lparr>VirtualQuery := (\<lambda>w a. None)\<rparr>"

definition access_violation :: exception_pointers where
  "access_violation =
     \<lparr>ExceptionCode = 0xC0000005, ExceptionInformation0 = 1, ExceptionInformation1 = 0x2000,
      XIP = 0x401000, EFlags = 0x202\<rparr>"

definition single_step_trap :: exception_pointers where
  "single_step_trap =
     \<lparr>ExceptionCode = 0x80000004, ExceptionInformation0 = 0, ExceptionInformation1 = 0,
      XIP = 0x401003, EFlags = 0x202\<rparr>"

definition guard_fault_at :: "uintptr_t \<Rightarrow> exception_pointers" where
  "guard_fault_at a =
     \<lparr>ExceptionCode = 0x80000001, ExceptionInformation0 = 1, ExceptionInformation1 = a,
      XIP = 0x401000, EFlags = 0x202\<rparr>"

definition watching :: "unit tree_op list \<Rightarrow> nat \<Rightarrow> uintptr_t \<Rightarrow> (unit, DWORD) process" where
  "watching ops tid a =
     \<lparr>veh_refcount = 1, veh_handle = 1, interval_tree = run ops,
      last_data_address = (\<lambda>t. if t = tid then a else 0), os = 4\<rparr>"

definition failed_create_state :: "(unit, DWORD) process" where
  "failed_create_state =
     (new_process 4)\<lparr>veh_refcount := 1, veh_handle := 1,
        interval_tree := run [Insert 0x1000 0x1004 ()]\<rparr>"

definition armed_after_destroy :: "(unit, DWORD) process" where
  "armed_after_destroy =
     \<lparr>veh_refcount = 0, veh_handle = 0,
      interval_tree = run [Insert 0x10000 0x10004 (), Erase 0],
      last_data_address = (\<lambda>t. if t = 0 then 0x10000 else 0), os = 4\<rparr>"

definition shared_key_registry :: "unit IntervalTree" where
  "shared_key_registry = run [Insert 20 30 (), Insert 20 40 ()]"

definition successor_with_two :: "unit tree_op list" where
  "successor_with_two = [Insert 10 11 (), Insert 5 6 (), Insert 20 30 (), Insert 20 40 ()]"

definition reused_key_ops :: "unit tree_op list" where
  "reused_key_ops = successor_with_two @ [Erase 0, Insert 20 50 (), Erase 2]"

definition destroyed_session_process :: "(nat, DWORD) process" where
  "destroyed_session_process =
     \<lparr>veh_refcount = 2, veh_handle = 1,
      interval_tree = run [Insert 10 11 0, Insert 5 6 1, Insert 20 40 2, Insert 20 30 3,
                           Erase 0, Erase 2],
      last_data_address = (\<lambda>t. 0), os = 4\<rparr>"

section \<open>The AVL balance is kept by insert and erase\<close>

lemma avl_height_nonneg: "avl t \<Longrightarrow> 0 \<le> height t"
  by (induction t) auto

lemma avl_height_pos: "avl (Node ivs h me l r) \<Longrightarrow> 1 \<le> h"
  using avl_height_nonneg [of l] avl_height_nonneg [of r] by auto

lemma erase_rebalance_avl:
  assumes "avl l" "avl r" "height l - height r \<le> 2" "height r - height l \<le> 2"
  shows "avl (erase_rebalance (Node ivs h me l r)) \<and>
         (height (erase_rebalance (Node ivs h me l r)) = 1 + max (height l) (height r)
          \<or> (height (erase_rebalance (Node ivs h me l r)) = max (height l) (height r)
              \<and> (height l - height r = 2 \<or> height r - height l = 2)))"
proof -
  consider (ok) "height l - height r \<le> 1" "height r - height l \<le> 1"
    | (lheavy) "height l - height r = 2" | (rheavy) "height r - height l = 2"
    using assms by linarith
  then show ?thesis
  proof cases
    case ok
    then show ?thesis using assms by (simp add: Let_def)
  next
    case lheavy
    then have "l \<noteq> Null" using avl_height_nonneg [OF assms(2)] by auto
    then obtain livs lh lme ll lr where l: "l = Node livs lh lme ll lr" by (cases l) auto
    show ?thesis
    proof (cases "height ll - height lr \<ge> 0")
      case True
      then show ?thesis using assms lheavy l by (auto simp: Let_def)
    next
      case False
      then have "lr \<noteq> Null" using assms(1) l avl_height_nonneg [of ll] by auto
      then obtain a b c d e where lr: "lr = Node a b c d e" by (cases lr) auto
      show ?thesis using assms lheavy l lr False by (auto simp: Let_def)
    qed
  next
    case rheavy
    then have "r \<noteq> Null" using avl_height_nonneg [OF assms(1)] by auto
    then obtain rivs rh rme rl rr where r: "r = Node rivs rh rme rl rr" by (cases r) auto
    show ?thesis
    proof (cases "height rl - height rr \<le> 0")
      case True
      then show ?thesis using assms rheavy r by (auto simp: Let_def)
    next
      case False
      then have "rl \<noteq> Null" using assms(2) r avl_height_nonneg [of rr] by auto
      then obtain a b c d e where rl: "rl = Node a b c d e" by (cases rl) auto
      show ?thesis using assms rheavy r rl False by (auto simp: Let_def)
    qed
  qed
qed

lemma erase_rebalance_avl_same:
  assumes "avl t"
  shows "avl (erase_rebalance t) \<and> height (erase_rebalance t) = height t"
proof (cases t)
  case Null
  then show ?thesis by simp
next
  case (Node ivs h me l r)
  then show ?thesis using assms erase_rebalance_avl [of l r ivs h me] by auto
qed

lemma erase_rebalance_avl_shrunk:
  assumes "avl l'" "avl r'"
    and "h = 1 + max hl hr" "hl - hr \<le> 1" "hr - hl \<le> 1"
    and "(height l' = hl \<or> height l' = hl - 1) \<and> height r' = hr
         \<or> height l' = hl \<and> (height r' = hr \<or> height r' = hr - 1)"
  shows "avl (erase_rebalance (Node ivs h0 me l' r')) \<and>
         (height (erase_rebalance (Node ivs h0 me l' r')) = h
          \<or> height (erase_rebalance (Node ivs h0 me l' r')) = h - 1)"
proof -
  have d: "height l' - height r' \<le> 2" "height r' - height l' \<le> 2"
    using assms by auto
  from erase_rebalance_avl [OF assms(1,2) d, of ivs h0 me] assms(3-6)
  show ?thesis by auto
qed

lemma erase_node_avl:
  "avl t \<Longrightarrow>
     avl (fst (erase_node t k i m)) \<and>
     (height (fst (erase_node t k i m)) = height t
      \<or> height (fst (erase_node t k i m)) = height t - 1)"
proof (induction t arbitrary: k m)
  case Null
  then show ?case by simp
next
  case (Node ivs h me l r)
  have al: "avl l" and ar: "avl r" and h: "h = 1 + max (height l) (height r)"
    and b1: "height l - height r \<le> 1" and b2: "height r - height l \<le> 1"
    using Node.prems by auto
  note IHl = Node.IH(1) [OF al]
  note IHr = Node.IH(2) [OF ar]
  have same: "\<And>ivs' h0. avl (erase_rebalance (Node ivs' h0 me l r)) \<and>
       (height (erase_rebalance (Node ivs' h0 me l r)) = h \<or>
        height (erase_rebalance (Node ivs' h0 me l r)) = h - 1)"
    by (rule erase_rebalance_avl_shrunk [OF al ar h b1 b2]) simp
  consider (lt) "k < istart (hd ivs)"
    | (gt) "\<not> k < istart (hd ivs)" "k > istart (hd ivs)"
    | (multi) "\<not> k < istart (hd ivs)" "\<not> k > istart (hd ivs)" "length ivs > 1"
    | (leaf) "\<not> k < istart (hd ivs)" "\<not> k > istart (hd ivs)" "\<not> length ivs > 1" "l = Null \<or> r = Null"
    | (two) "\<not> k < istart (hd ivs)" "\<not> k > istart (hd ivs)" "\<not> length ivs > 1" "\<not> (l = Null \<or> r = Null)"
    by blast
  then show ?case
  proof cases
    case lt
    obtain l' m' where e: "erase_node l k i m = (l', m')" by (cases "erase_node l k i m")
    have "avl l'" "height l' = height l \<or> height l' = height l - 1"
      using IHl [of k m] e by auto
    then have "avl (erase_rebalance (Node ivs h me l' r)) \<and>
       (height (erase_rebalance (Node ivs h me l' r)) = h \<or>
        height (erase_rebalance (Node ivs h me l' r)) = h - 1)"
      by (intro erase_rebalance_avl_shrunk [OF _ ar h b1 b2]) auto
    then show ?thesis using lt e by simp
  next
    case gt
    obtain r' m' where e: "erase_node r k i m = (r', m')" by (cases "erase_node r k i m")
    have "avl r'" "height r' = height r \<or> height r' = height r - 1"
      using IHr [of k m] e by auto
    then have "avl (erase_rebalance (Node ivs h me l r')) \<and>
       (height (erase_rebalance (Node ivs h me l r')) = h \<or>
        height (erase_rebalance (Node ivs h me l r')) = h - 1)"
      by (intro erase_rebalance_avl_shrunk [OF al _ h b1 b2]) auto
    then show ?thesis using gt e by simp
  next
    case multi
    then show ?thesis using same by (simp split: option.split)
  next
    case leaf
    have "avl (erase_rebalance l) \<and> height (erase_rebalance l) = height l"
      "avl (erase_rebalance r) \<and> height (erase_rebalance r) = height r"
      using erase_rebalance_avl_same al ar by blast+
    then show ?thesis
      using leaf h b1 b2 avl_height_nonneg [OF al] avl_height_nonneg [OF ar]
      by (auto simp: Let_def)
  next
    case two
    define k' where "k' = istart (hd (intervals (min_value_node r)))"
    obtain r' m' where e: "erase_node r k' i m = (r', m')" by (cases "erase_node r k' i m")
    have "avl r'" "height r' = height r \<or> height r' = height r - 1"
      using IHr [of k' m] e by auto
    then have "\<And>ivs'. avl (erase_rebalance (Node ivs' h me l r')) \<and>
       (height (erase_rebalance (Node ivs' h me l r')) = h \<or>
        height (erase_rebalance (Node ivs' h me l r')) = h - 1)"
      by (intro erase_rebalance_avl_shrunk [OF al _ h b1 b2]) auto
    then show ?thesis using two e by (simp add: Let_def k'_def)
  qed
qed

lemma insert_rebalance_balanced:
  assumes "height l - height r \<le> 1" "height r - height l \<le> 1"
  shows "\<exists>me'. insert_rebalance (Node ivs h me l r) i =
           Node ivs (1 + max (height l) (height r)) me' l r"
  using assms by (simp add: insert_rebalance_def Let_def)

lemma insert_rebalance_avl_left:
  assumes "avl l" "avl r" "height l - height r = 2" "grown l i"
  shows "avl (insert_rebalance (Node ivs h me l r) i) \<and>
         height (insert_rebalance (Node ivs h me l r) i) = height l"
proof -
  obtain livs lh lme ll lr where l: "l = Node livs lh lme ll lr"
    and ne: "istart i \<noteq> istart (hd livs)"
    and lt: "istart i < istart (hd livs) \<longrightarrow> height ll = height lr + 1"
    and gt: "istart i > istart (hd livs) \<longrightarrow> height lr = height ll + 1"
    using assms(4) unfolding grown_def by blast
  show ?thesis
  proof (cases "istart i < istart (hd livs)")
    case True
    then show ?thesis using assms(1-3) l lt
      by (auto simp: insert_rebalance_def Let_def)
  next
    case False
    then have g: "istart i > istart (hd livs)" using ne by auto
    then have hh: "height lr = height ll + 1" using gt by simp
    then have "lr \<noteq> Null" using assms(1) l avl_height_nonneg [of ll] by auto
    then obtain a b c d e where lr: "lr = Node a b c d e" by (cases lr) auto
    show ?thesis using assms(1-3) l lr g hh False
      by (auto simp: insert_rebalance_def Let_def)
  qed
qed

lemma insert_rebalance_avl_right:
  assumes "avl l" "avl r" "height r - height l = 2" "grown r i"
  shows "avl (insert_rebalance (Node ivs h me l r) i) \<and>
         height (insert_rebalance (Node ivs h me l r) i) = height r"
proof -
  obtain rivs rh rme rl rr where r: "r = Node rivs rh rme rl rr"
    and ne: "istart i \<noteq> istart (hd rivs)"
    and lt: "istart i < istart (hd rivs) \<longrightarrow> height rl = height rr + 1"
    and gt: "istart i > istart (hd rivs) \<longrightarrow> height rr = height rl + 1"
    using assms(4) unfolding grown_def by blast
  show ?thesis
  proof (cases "istart i > istart (hd rivs)")
    case True
    then show ?thesis using assms(1-3) r gt
      by (auto simp: insert_rebalance_def Let_def)
  next
    case False
    then have g: "istart i < istart (hd rivs)" using ne by auto
    then have hh: "height rl = height rr + 1" using lt by simp
    then have "rl \<noteq> Null" using assms(2) r avl_height_nonneg [of rr] by auto
    then obtain a b c d e where rl: "rl = Node a b c d e" by (cases rl) auto
    show ?thesis using assms(1-3) r rl g hh False
      by (auto simp: insert_rebalance_def Let_def)
  qed
qed

lemma insert_node_avl:
  "avl t \<Longrightarrow>
     avl (insert_node t i) \<and>
     (height (insert_node t i) = height t
      \<or> height (insert_node t i) = height t + 1 \<and> (t = Null \<or> grown (insert_node t i) i))"
proof (induction t)
  case Null
  then show ?case by simp
next
  case (Node ivs h me l r)
  have al: "avl l" and ar: "avl r" and h: "h = 1 + max (height l) (height r)"
    and b1: "height l - height r \<le> 1" and b2: "height r - height l \<le> 1"
    using Node.prems by auto
  note IHl = Node.IH(1) [OF al]
  note IHr = Node.IH(2) [OF ar]
  consider (lt) "istart i < istart (hd ivs)"
    | (gt) "\<not> istart i < istart (hd ivs)" "istart i > istart (hd ivs)"
    | (eq) "\<not> istart i < istart (hd ivs)" "\<not> istart i > istart (hd ivs)"
    by blast
  then show ?case
  proof cases
    case lt
    define l' where "l' = insert_node l i"
    have t': "insert_node (Node ivs h me l r) i = insert_rebalance (Node ivs h me l' r) i"
      using lt by (simp add: l'_def)
    have al': "avl l'" and hl': "height l' = height l \<or>
        height l' = height l + 1 \<and> (l = Null \<or> grown l' i)"
      using IHl by (auto simp: l'_def)
    show ?thesis
    proof (cases "height l' - height r = 2")
      case True
      then have "l \<noteq> Null" using hl' b1 avl_height_nonneg [OF ar] by auto
      then have g: "grown l' i" and "height l' = height l + 1" using hl' True b1 by auto
      then show ?thesis
        using insert_rebalance_avl_left [OF al' ar True g, of ivs h me] t' h True by auto
    next
      case False
      then have bb: "height l' - height r \<le> 1" "height r - height l' \<le> 1"
        using hl' b1 b2 by auto
      from insert_rebalance_balanced [OF bb, of ivs h me i]
      obtain me' where
        e: "insert_rebalance (Node ivs h me l' r) i = Node ivs (1 + max (height l') (height r)) me' l' r"
        by blast
      have A: "avl (Node ivs (1 + max (height l') (height r)) me' l' r)"
        using al' ar bb by simp
      have B: "1 + max (height l') (height r) = h
          \<or> 1 + max (height l') (height r) = h + 1 \<and> height l' = height r + 1"
        using hl' h b1 b2 bb by linarith
      have G: "height l' = height r + 1 \<Longrightarrow>
          grown (Node ivs (1 + max (height l') (height r)) me' l' r) i"
        using lt less_imp_neq [of "istart i" "istart (hd ivs)"]
          order.asym [of "istart i" "istart (hd ivs)"] by (simp add: grown_def)
      show ?thesis unfolding t' e using A B G by auto
    qed
  next
    case gt
    define r' where "r' = insert_node r i"
    have t': "insert_node (Node ivs h me l r) i = insert_rebalance (Node ivs h me l r') i"
      using gt by (simp add: r'_def)
    have ar': "avl r'" and hr': "height r' = height r \<or>
        height r' = height r + 1 \<and> (r = Null \<or> grown r' i)"
      using IHr by (auto simp: r'_def)
    show ?thesis
    proof (cases "height r' - height l = 2")
      case True
      then have "r \<noteq> Null" using hr' b2 avl_height_nonneg [OF al] by auto
      then have g: "grown r' i" and "height r' = height r + 1" using hr' True b2 by auto
      then show ?thesis
        using insert_rebalance_avl_right [OF al ar' True g, of ivs h me] t' h True by auto
    next
      case False
      then have bb: "height l - height r' \<le> 1" "height r' - height l \<le> 1"
        using hr' b1 b2 by auto
      from insert_rebalance_balanced [OF bb, of ivs h me i]
      obtain me' where
        e: "insert_rebalance (Node ivs h me l r') i = Node ivs (1 + max (height l) (height r')) me' l r'"
        by blast
      have A: "avl (Node ivs (1 + max (height l) (height r')) me' l r')"
        using al ar' bb by simp
      have B: "1 + max (height l) (height r') = h
          \<or> 1 + max (height l) (height r') = h + 1 \<and> height r' = height l + 1"
        using hr' h b1 b2 bb by linarith
      have G: "height r' = height l + 1 \<Longrightarrow>
          grown (Node ivs (1 + max (height l) (height r')) me' l r') i"
        using gt less_imp_neq [of "istart (hd ivs)" "istart i"]
        by (simp add: grown_def)
      show ?thesis unfolding t' e using A B G by auto
    qed
  next
    case eq
    from insert_rebalance_balanced [OF b1 b2, of "ivs @ [i]" h me i]
    obtain me' where
      e: "insert_rebalance (Node (ivs @ [i]) h me l r) i = Node (ivs @ [i]) (1 + max (height l) (height r)) me' l r"
      by blast
    show ?thesis using eq e al ar h b1 b2 by simp
  qed
qed

lemma ins_pre_same: "avl (Node ivs h me l r) \<Longrightarrow> ins_pre l r i"
  by (simp add: ins_pre_def)

lemma ins_pre_left:
  assumes "avl (Node ivs h me l r)"
  shows "ins_pre (insert_node l i) r i"
proof -
  have al: "avl l" and ar: "avl r"
    and b1: "height l - height r \<le> 1" and b2: "height r - height l \<le> 1"
    using assms by auto
  have al': "avl (insert_node l i)" and hl': "height (insert_node l i) = height l \<or>
      height (insert_node l i) = height l + 1 \<and> (l = Null \<or> grown (insert_node l i) i)"
    using insert_node_avl [OF al, of i] by auto
  show ?thesis
  proof (cases "height (insert_node l i) - height r = 2")
    case True
    then have "l \<noteq> Null" using hl' b1 avl_height_nonneg [OF ar] by auto
    then have "grown (insert_node l i) i" using hl' True b1 by auto
    then show ?thesis using al' ar True by (simp add: ins_pre_def)
  next
    case False
    then have "height (insert_node l i) - height r \<le> 1" "height r - height (insert_node l i) \<le> 1"
      using hl' b1 b2 by auto
    then show ?thesis using al' ar by (simp add: ins_pre_def)
  qed
qed

lemma ins_pre_right:
  assumes "avl (Node ivs h me l r)"
  shows "ins_pre l (insert_node r i) i"
proof -
  have al: "avl l" and ar: "avl r"
    and b1: "height l - height r \<le> 1" and b2: "height r - height l \<le> 1"
    using assms by auto
  have ar': "avl (insert_node r i)" and hr': "height (insert_node r i) = height r \<or>
      height (insert_node r i) = height r + 1 \<and> (r = Null \<or> grown (insert_node r i) i)"
    using insert_node_avl [OF ar, of i] by auto
  show ?thesis
  proof (cases "height (insert_node r i) - height l = 2")
    case True
    then have "r \<noteq> Null" using hr' b2 avl_height_nonneg [OF al] by auto
    then have "grown (insert_node r i) i" using hr' True b2 by auto
    then show ?thesis using al ar' True by (simp add: ins_pre_def)
  next
    case False
    then have "height l - height (insert_node r i) \<le> 1" "height (insert_node r i) - height l \<le> 1"
      using hr' b1 b2 by auto
    then show ?thesis using al ar' by (simp add: ins_pre_def)
  qed
qed

lemma era_pre_same: "avl (Node ivs h me l r) \<Longrightarrow> era_pre l r"
  by (simp add: era_pre_def)

lemma era_pre_left:
  assumes "avl (Node ivs h me l r)"
  shows "era_pre (fst (erase_node l k i m)) r"
  using assms erase_node_avl [of l k i m] by (auto simp: era_pre_def)

lemma era_pre_right:
  assumes "avl (Node ivs h me l r)"
  shows "era_pre l (fst (erase_node r k i m))"
  using assms erase_node_avl [of r k i m] by (auto simp: era_pre_def)

section \<open>What the rebalancing tails return\<close>

lemma all_intervals_simps [simp]:
  "all_intervals Null = []"
  "all_intervals (Node ivs h me l r) = all_intervals l @ ivs @ all_intervals r"
  by (simp_all add: all_intervals_def)

lemma erase_rebalance_cases [consumes 4, case_names keep LL LR RR RL]:
  assumes "avl l" "avl r" "height l - height r \<le> 2" "height r - height l \<le> 2"
  obtains
    (keep) "erase_rebalance (Node ivs h me l r) =
       Node ivs (1 + max (height l) (height r)) (node_max_end ivs l r) l r"
  | (LL) livs lh lme ll lr where "l = Node livs lh lme ll lr"
      "erase_rebalance (Node ivs h me l r) =
         rotate_right (Node ivs (1 + max (height l) (height r)) (node_max_end ivs l r) l r)"
  | (LR) livs lh lme ll a b c d e where "l = Node livs lh lme ll (Node a b c d e)"
      "erase_rebalance (Node ivs h me l r) =
         rotate_right (Node ivs (1 + max (height l) (height r)) (node_max_end ivs l r)
           (rotate_left l) r)"
  | (RR) rivs rh rme rl rr where "r = Node rivs rh rme rl rr"
      "erase_rebalance (Node ivs h me l r) =
         rotate_left (Node ivs (1 + max (height l) (height r)) (node_max_end ivs l r) l r)"
  | (RL) rivs rh rme a b c d e rr where "r = Node rivs rh rme (Node a b c d e) rr"
      "erase_rebalance (Node ivs h me l r) =
         rotate_left (Node ivs (1 + max (height l) (height r)) (node_max_end ivs l r)
           l (rotate_right r))"
proof -
  consider (ok) "height l - height r \<le> 1" "height r - height l \<le> 1"
    | (lheavy) "height l - height r = 2" | (rheavy) "height r - height l = 2"
    using assms by linarith
  then show ?thesis
  proof cases
    case ok
    then show ?thesis using keep by (simp add: Let_def)
  next
    case lheavy
    then have "l \<noteq> Null" using avl_height_nonneg [OF assms(2)] by auto
    then obtain livs lh lme ll lr where l: "l = Node livs lh lme ll lr" by (cases l) auto
    show ?thesis
    proof (cases "height ll - height lr \<ge> 0")
      case True
      then show ?thesis using LL [OF l] lheavy l by (simp add: Let_def)
    next
      case False
      then have "lr \<noteq> Null" using assms(1) l avl_height_nonneg [of ll] by auto
      then obtain a b c d e where lr: "lr = Node a b c d e" by (cases lr) auto
      show ?thesis using LR [of livs lh lme ll a b c d e] lheavy l lr False
        by (simp add: Let_def)
    qed
  next
    case rheavy
    then have "r \<noteq> Null" using avl_height_nonneg [OF assms(1)] by auto
    then obtain rivs rh rme rl rr where r: "r = Node rivs rh rme rl rr" by (cases r) auto
    show ?thesis
    proof (cases "height rl - height rr \<le> 0")
      case True
      then show ?thesis using RR [OF r] rheavy r by (simp add: Let_def)
    next
      case False
      then have "rl \<noteq> Null" using assms(2) r avl_height_nonneg [of rr] by auto
      then obtain a b c d e where rl: "rl = Node a b c d e" by (cases rl) auto
      show ?thesis using RL [of rivs rh rme a b c d e rr] rheavy r rl False
        by (simp add: Let_def)
    qed
  qed
qed

lemma insert_rebalance_cases [consumes 1, case_names keep LL LR RR RL]:
  assumes "ins_pre l r i"
  obtains
    (keep) "insert_rebalance (Node ivs h me l r) i =
       Node ivs (1 + max (height l) (height r)) (node_max_end ivs l r) l r"
  | (LL) livs lh lme ll lr where "l = Node livs lh lme ll lr"
      "insert_rebalance (Node ivs h me l r) i =
         rotate_right (Node ivs (1 + max (height l) (height r)) (node_max_end ivs l r) l r)"
  | (LR) livs lh lme ll a b c d e where "l = Node livs lh lme ll (Node a b c d e)"
      "insert_rebalance (Node ivs h me l r) i =
         rotate_right (Node ivs (1 + max (height l) (height r)) (node_max_end ivs l r)
           (rotate_left l) r)"
  | (RR) rivs rh rme rl rr where "r = Node rivs rh rme rl rr"
      "insert_rebalance (Node ivs h me l r) i =
         rotate_left (Node ivs (1 + max (height l) (height r)) (node_max_end ivs l r) l r)"
  | (RL) rivs rh rme a b c d e rr where "r = Node rivs rh rme (Node a b c d e) rr"
      "insert_rebalance (Node ivs h me l r) i =
         rotate_left (Node ivs (1 + max (height l) (height r)) (node_max_end ivs l r)
           l (rotate_right r))"
proof -
  have al: "avl l" and ar: "avl r" using assms by (auto simp: ins_pre_def)
  consider (ok) "height l - height r \<le> 1" "height r - height l \<le> 1"
    | (lheavy) "height l - height r = 2" "grown l i"
    | (rheavy) "height r - height l = 2" "grown r i"
    using assms unfolding ins_pre_def by blast
  then show ?thesis
  proof cases
    case ok
    then show ?thesis using keep by (simp add: insert_rebalance_def Let_def)
  next
    case lheavy
    obtain livs lh lme ll lr where l: "l = Node livs lh lme ll lr"
      and ne: "istart i \<noteq> istart (hd livs)"
      and gt: "istart i > istart (hd livs) \<longrightarrow> height lr = height ll + 1"
      using lheavy(2) unfolding grown_def by blast
    show ?thesis
    proof (cases "istart i < istart (hd livs)")
      case True
      then show ?thesis using LL [OF l] lheavy(1) l by (simp add: insert_rebalance_def Let_def)
    next
      case False
      then have g: "istart i > istart (hd livs)" using ne by auto
      then have "height lr = height ll + 1" using gt by simp
      then have "lr \<noteq> Null" using al l avl_height_nonneg [of ll] by auto
      then obtain a b c d e where lr: "lr = Node a b c d e" by (cases lr) auto
      show ?thesis using LR [of livs lh lme ll a b c d e] lheavy(1) l lr g False
        by (simp add: insert_rebalance_def Let_def)
    qed
  next
    case rheavy
    obtain rivs rh rme rl rr where r: "r = Node rivs rh rme rl rr"
      and ne: "istart i \<noteq> istart (hd rivs)"
      and lt: "istart i < istart (hd rivs) \<longrightarrow> height rl = height rr + 1"
      using rheavy(2) unfolding grown_def by blast
    show ?thesis
    proof (cases "istart i > istart (hd rivs)")
      case True
      then show ?thesis using RR [OF r] rheavy(1) r by (simp add: insert_rebalance_def Let_def)
    next
      case False
      then have g: "istart i < istart (hd rivs)" using ne by auto
      then have "height rl = height rr + 1" using lt by simp
      then have "rl \<noteq> Null" using ar r avl_height_nonneg [of rr] by auto
      then obtain a b c d e where rl: "rl = Node a b c d e" by (cases rl) auto
      show ?thesis using RL [of rivs rh rme a b c d e rr] rheavy(1) r rl g False
        by (simp add: insert_rebalance_def Let_def)
    qed
  qed
qed

lemma node_lists_rotate_left:
  "node_lists (rotate_left (Node ivs h me l (Node rivs rh rme rl rr))) =
     node_lists (Node ivs h me l (Node rivs rh rme rl rr))"
  by (simp add: Let_def)

lemma node_lists_rotate_right:
  "node_lists (rotate_right (Node ivs h me (Node livs lh lme ll lr) r)) =
     node_lists (Node ivs h me (Node livs lh lme ll lr) r)"
  by (simp add: Let_def)

lemma rotate_left_Node:
  "\<exists>h' me'. rotate_left (Node ivs h me l (Node rivs rh rme rl rr)) =
      Node rivs h' me' (Node ivs (max (height l) (height rl) + 1) me l rl) rr"
  by (simp add: Let_def)

lemma rotate_right_Node:
  "\<exists>h' me'. rotate_right (Node ivs h me (Node livs lh lme ll lr) r) =
      Node livs h' me' ll (Node ivs (max (height lr) (height r) + 1) me lr r)"
  by (simp add: Let_def)

lemma node_lists_erase_rebalance:
  assumes "avl l" "avl r" "height l - height r \<le> 2" "height r - height l \<le> 2"
  shows "node_lists (erase_rebalance (Node ivs h me l r)) = node_lists l @ ivs # node_lists r"
  using assms
proof (cases rule: erase_rebalance_cases [where ivs = ivs and h = h and me = me])
  case keep
  then show ?thesis by simp
next
  case (LL livs lh lme ll lr)
  then show ?thesis by (simp add: Let_def)
next
  case (LR livs lh lme ll a b c d e)
  then show ?thesis by (simp add: Let_def)
next
  case (RR rivs rh rme rl rr)
  then show ?thesis by (simp add: Let_def)
next
  case (RL rivs rh rme a b c d e rr)
  then show ?thesis by (simp add: Let_def)
qed

lemma node_lists_insert_rebalance:
  assumes "ins_pre l r i"
  shows "node_lists (insert_rebalance (Node ivs h me l r) i) = node_lists l @ ivs # node_lists r"
  using assms
proof (cases rule: insert_rebalance_cases [where ivs = ivs and h = h and me = me])
  case keep
  then show ?thesis by simp
next
  case (LL livs lh lme ll lr)
  then show ?thesis by (simp add: Let_def)
next
  case (LR livs lh lme ll a b c d e)
  then show ?thesis by (simp add: Let_def)
next
  case (RR rivs rh rme rl rr)
  then show ?thesis by (simp add: Let_def)
next
  case (RL rivs rh rme a b c d e rr)
  then show ?thesis by (simp add: Let_def)
qed

lemma node_lists_erase_rebalance':
  "era_pre l r \<Longrightarrow>
     node_lists (erase_rebalance (Node ivs h me l r)) = node_lists l @ ivs # node_lists r"
  unfolding era_pre_def by (intro node_lists_erase_rebalance) auto

section \<open>The aggregate is an upper bound\<close>

lemma foldl_max_ge: "a \<le> foldl (\<lambda>m x. max m (f x)) a xs" for a :: "'a::linorder"
  by (induction xs arbitrary: a) (auto intro: order_trans [OF max.cobounded1])

lemma foldl_max_mem: "j \<in> set xs \<Longrightarrow> f j \<le> foldl (\<lambda>m x. max m (f x)) a xs"
  for a :: "'a::linorder"
proof (induction xs arbitrary: a)
  case Nil
  then show ?case by simp
next
  case (Cons x xs)
  show ?case
  proof (cases "j = x")
    case True
    have "f x \<le> max a (f x)" by simp
    also have "\<dots> \<le> foldl (\<lambda>m x. max m (f x)) (max a (f x)) xs" by (rule foldl_max_ge)
    finally show ?thesis using True by simp
  next
    case False
    then show ?thesis using Cons by simp
  qed
qed

lemma foldl_max_le:
  "a \<le> b \<Longrightarrow> \<forall>j \<in> set xs. f j \<le> b \<Longrightarrow> foldl (\<lambda>m x. max m (f x)) a xs \<le> b"
  for a :: "'a::linorder"
  by (induction xs arbitrary: a) auto

lemma node_max_end_ge:
  "j \<in> set ivs \<Longrightarrow> iend j \<le> node_max_end ivs l r"
  "max_end l \<le> node_max_end ivs l r"
  "max_end r \<le> node_max_end ivs l r"
  unfolding node_max_end_def Let_def
  by (auto simp: max.coboundedI1 foldl_max_mem)

lemma node_max_end_le:
  assumes "ivs \<noteq> []" "\<forall>j \<in> set ivs. iend j \<le> b" "max_end l \<le> b" "max_end r \<le> b"
  shows "node_max_end ivs l r \<le> b"
proof -
  have "iend (hd ivs) \<le> b" using assms(1,2) by simp
  then have "foldl (\<lambda>m interval. max m (iend interval)) (iend (hd ivs)) ivs \<le> b"
    using assms(2) by (rule foldl_max_le)
  then show ?thesis using assms(3,4) by (simp add: node_max_end_def Let_def)
qed

lemma upper_update:
  "ivs \<noteq> [] \<Longrightarrow> upper l \<Longrightarrow> upper r \<Longrightarrow> upper (Node ivs h (node_max_end ivs l r) l r)"
  by (simp add: node_max_end_ge)

lemma upper_rotate_left:
  assumes "upper (Node ivs h me l (Node rivs rh rme rl rr))"
  shows "upper (rotate_left (Node ivs h me l (Node rivs rh rme rl rr)))"
    and "max_end (rotate_left (Node ivs h me l (Node rivs rh rme rl rr))) = me"
proof -
  let ?n = "Node ivs (max (height l) (height rl) + 1) me l rl"
  have n: "upper ?n" using assms by auto
  have r: "upper rr" "rivs \<noteq> []" using assms by auto
  show "upper (rotate_left (Node ivs h me l (Node rivs rh rme rl rr)))"
    using upper_update [OF r(2) n r(1)] by (simp add: Let_def)
  have "node_max_end rivs ?n rr \<le> me"
    using assms by (intro node_max_end_le) auto
  moreover have "me \<le> node_max_end rivs ?n rr"
    using node_max_end_ge(2) [of ?n rivs rr] by simp
  ultimately show "max_end (rotate_left (Node ivs h me l (Node rivs rh rme rl rr))) = me"
    by (simp add: Let_def)
qed

lemma upper_rotate_right:
  assumes "upper (Node ivs h me (Node livs lh lme ll lr) r)"
  shows "upper (rotate_right (Node ivs h me (Node livs lh lme ll lr) r))"
    and "max_end (rotate_right (Node ivs h me (Node livs lh lme ll lr) r)) = me"
proof -
  let ?n = "Node ivs (max (height lr) (height r) + 1) me lr r"
  have n: "upper ?n" using assms by auto
  have l: "upper ll" "livs \<noteq> []" using assms by auto
  show "upper (rotate_right (Node ivs h me (Node livs lh lme ll lr) r))"
    using upper_update [OF l(2) l(1) n] by (simp add: Let_def)
  have "node_max_end livs ll ?n \<le> me"
    using assms by (intro node_max_end_le) auto
  moreover have "me \<le> node_max_end livs ll ?n"
    using node_max_end_ge(3) [of ?n livs ll] by simp
  ultimately show "max_end (rotate_right (Node ivs h me (Node livs lh lme ll lr) r)) = me"
    by (simp add: Let_def)
qed

lemma upper_erase_rebalance:
  assumes "avl l" "avl r" "height l - height r \<le> 2" "height r - height l \<le> 2"
    and "ivs \<noteq> []" "upper l" "upper r"
  shows "upper (erase_rebalance (Node ivs h me l r))"
  using assms(1-4)
proof (cases rule: erase_rebalance_cases [where ivs = ivs and h = h and me = me])
  case keep
  then show ?thesis using upper_update [OF assms(5-7)] by simp
next
  case (LL livs lh lme ll lr)
  show ?thesis unfolding LL(2) using upper_update [OF assms(5-7)]
    unfolding LL(1) by (rule upper_rotate_right(1))
next
  case (LR livs lh lme ll a b c d e)
  obtain h' me' where rl: "rotate_left l =
      Node a h' me' (Node livs (max (height ll) (height d) + 1) lme ll d) e"
    using rotate_left_Node [of livs lh lme ll a b c d e] LR(1) by auto
  have ul: "upper (rotate_left l)" "max_end (rotate_left l) = max_end l"
    using upper_rotate_left [of livs lh lme ll a b c d e] assms(6) LR(1) by auto
  have "upper (Node ivs (1 + max (height l) (height r)) (node_max_end ivs l r) (rotate_left l) r)"
    using upper_update [OF assms(5-7)] ul by simp
  then show ?thesis unfolding LR(2) unfolding rl by (rule upper_rotate_right(1))
next
  case (RR rivs rh rme rl rr)
  show ?thesis unfolding RR(2) using upper_update [OF assms(5-7)]
    unfolding RR(1) by (rule upper_rotate_left(1))
next
  case (RL rivs rh rme a b c d e rr)
  obtain h' me' where rl: "rotate_right r =
      Node a h' me' d (Node rivs (max (height e) (height rr) + 1) rme e rr)"
    using rotate_right_Node [of rivs rh rme a b c d e rr] RL(1) by auto
  have ur: "upper (rotate_right r)" "max_end (rotate_right r) = max_end r"
    using upper_rotate_right [of rivs rh rme a b c d e rr] assms(7) RL(1) by auto
  have "upper (Node ivs (1 + max (height l) (height r)) (node_max_end ivs l r) l (rotate_right r))"
    using upper_update [OF assms(5-7)] ur by simp
  then show ?thesis unfolding RL(2) unfolding rl by (rule upper_rotate_left(1))
qed

lemma upper_insert_rebalance:
  assumes "ins_pre l r i" and "ivs \<noteq> []" "upper l" "upper r"
  shows "upper (insert_rebalance (Node ivs h me l r) i)"
  using assms(1)
proof (cases rule: insert_rebalance_cases [where ivs = ivs and h = h and me = me])
  case keep
  then show ?thesis using upper_update [OF assms(2-4)] by simp
next
  case (LL livs lh lme ll lr)
  show ?thesis unfolding LL(2) using upper_update [OF assms(2-4)]
    unfolding LL(1) by (rule upper_rotate_right(1))
next
  case (LR livs lh lme ll a b c d e)
  obtain h' me' where rl: "rotate_left l =
      Node a h' me' (Node livs (max (height ll) (height d) + 1) lme ll d) e"
    using rotate_left_Node [of livs lh lme ll a b c d e] LR(1) by auto
  have ul: "upper (rotate_left l)" "max_end (rotate_left l) = max_end l"
    using upper_rotate_left [of livs lh lme ll a b c d e] assms(3) LR(1) by auto
  have "upper (Node ivs (1 + max (height l) (height r)) (node_max_end ivs l r) (rotate_left l) r)"
    using upper_update [OF assms(2-4)] ul by simp
  then show ?thesis unfolding LR(2) unfolding rl by (rule upper_rotate_right(1))
next
  case (RR rivs rh rme rl rr)
  show ?thesis unfolding RR(2) using upper_update [OF assms(2-4)]
    unfolding RR(1) by (rule upper_rotate_left(1))
next
  case (RL rivs rh rme a b c d e rr)
  obtain h' me' where rl: "rotate_right r =
      Node a h' me' d (Node rivs (max (height e) (height rr) + 1) rme e rr)"
    using rotate_right_Node [of rivs rh rme a b c d e rr] RL(1) by auto
  have ur: "upper (rotate_right r)" "max_end (rotate_right r) = max_end r"
    using upper_rotate_right [of rivs rh rme a b c d e rr] assms(4) RL(1) by auto
  have "upper (Node ivs (1 + max (height l) (height r)) (node_max_end ivs l r) l (rotate_right r))"
    using upper_update [OF assms(2-4)] ur by simp
  then show ?thesis unfolding RL(2) unfolding rl by (rule upper_rotate_left(1))
qed

lemma upper_erase_rebalance':
  "era_pre l r \<Longrightarrow> ivs \<noteq> [] \<Longrightarrow> upper l \<Longrightarrow> upper r \<Longrightarrow>
     upper (erase_rebalance (Node ivs h me l r))"
  unfolding era_pre_def by (intro upper_erase_rebalance) auto

lemma upper_max_end: "upper t \<Longrightarrow> j \<in> set (all_intervals t) \<Longrightarrow> iend j \<le> max_end t"
proof (induction t)
  case Null
  then show ?case by simp
next
  case (Node ivs h me l r)
  have u: "\<forall>j \<in> set ivs. iend j \<le> me" "max_end l \<le> me" "max_end r \<le> me" "upper l" "upper r"
    using Node.prems(1) by auto
  consider "j \<in> set (all_intervals l)" | "j \<in> set ivs" | "j \<in> set (all_intervals r)"
    using Node.prems(2) by auto
  then show ?case
  proof cases
    case 1
    then have "iend j \<le> max_end l" using Node.IH(1) u(4) by blast
    then show ?thesis using u(2) by simp
  next
    case 2
    then show ?thesis using u(1) by simp
  next
    case 3
    then have "iend j \<le> max_end r" using Node.IH(2) u(5) by blast
    then show ?thesis using u(3) by simp
  qed
qed

section \<open>Contents and order of the tree\<close>

lemma uniform_Null [simp]: "uniform Null"
  by (simp add: uniform_def)

lemma uniform_Node [simp]:
  "uniform (Node ivs h me l r) =
     (ivs \<noteq> [] \<and> (\<forall>j \<in> set ivs. istart (hd ivs) = istart j) \<and> uniform l \<and> uniform r)"
  unfolding uniform_def by (simp add: ball_Un)

lemma insert_rebalance_uniform:
  assumes "ins_pre l r i"
  shows "uniform (insert_rebalance (Node ivs h me l r) i) = uniform (Node ivs h me l r)"
  unfolding uniform_def node_lists_insert_rebalance [OF assms] by simp

lemma insert_rebalance_all:
  assumes "ins_pre l r i"
  shows "all_intervals (insert_rebalance (Node ivs h me l r) i) =
           all_intervals l @ ivs @ all_intervals r"
  unfolding all_intervals_def node_lists_insert_rebalance [OF assms] by simp

lemma erase_rebalance_uniform:
  assumes "era_pre l r"
  shows "uniform (erase_rebalance (Node ivs h me l r)) = uniform (Node ivs h me l r)"
  unfolding uniform_def node_lists_erase_rebalance' [OF assms] by simp

lemma erase_rebalance_all:
  assumes "era_pre l r"
  shows "all_intervals (erase_rebalance (Node ivs h me l r)) =
           all_intervals l @ ivs @ all_intervals r"
  unfolding all_intervals_def node_lists_erase_rebalance' [OF assms] by simp

lemma erase_rebalance_whole:
  assumes "avl t"
  shows "node_lists (erase_rebalance t) = node_lists t"
    and "upper t \<Longrightarrow> upper (erase_rebalance t)"
proof -
  show "node_lists (erase_rebalance t) = node_lists t"
  proof (cases t)
    case Null
    then show ?thesis by simp
  next
    case (Node ivs h me l r)
    have "era_pre l r" using assms Node by (simp add: era_pre_def)
    from node_lists_erase_rebalance' [OF this, of ivs h me] show ?thesis
      unfolding Node by simp
  qed
  show "upper t \<Longrightarrow> upper (erase_rebalance t)"
  proof (cases t)
    case Null
    then show ?thesis by simp
  next
    case (Node ivs h me l r)
    assume u: "upper t"
    have p: "era_pre l r" using assms Node by (simp add: era_pre_def)
    have "ivs \<noteq> []" "upper l" "upper r" using u Node by simp_all
    from upper_erase_rebalance' [OF p this, of h me] show ?thesis
      unfolding Node .
  qed
qed

lemma upper_insert_node: "avl t \<Longrightarrow> upper t \<Longrightarrow> upper (insert_node t i)"
proof (induction t)
  case Null
  then show ?case by simp
next
  case (Node ivs h me l r)
  have al: "avl l" and ar: "avl r" using Node.prems by auto
  have ul: "upper l" and ur: "upper r" and ne: "ivs \<noteq> []" using Node.prems by auto
  consider (lt) "istart i < istart (hd ivs)"
    | (gt) "\<not> istart i < istart (hd ivs)" "istart i > istart (hd ivs)"
    | (eq) "\<not> istart i < istart (hd ivs)" "\<not> istart i > istart (hd ivs)"
    by blast
  then show ?case
  proof cases
    case lt
    then show ?thesis
      using upper_insert_rebalance [OF ins_pre_left [OF Node.prems(1)] ne Node.IH(1) [OF al ul] ur]
      by simp
  next
    case gt
    then show ?thesis
      using upper_insert_rebalance [OF ins_pre_right [OF Node.prems(1)] ne ul Node.IH(2) [OF ar ur]]
      by simp
  next
    case eq
    then show ?thesis
      using upper_insert_rebalance [OF ins_pre_same [OF Node.prems(1)], where ivs = "ivs @ [i]"] ul ur
      by simp
  qed
qed

lemma sorted_three:
  fixes f :: "'a \<Rightarrow> 'b::linorder"
  assumes "sorted (map f (xs @ ys @ zs))" "y \<in> set ys"
  shows "sorted (map f xs)" "sorted (map f zs)"
    "\<forall>x \<in> set xs. f x \<le> f y" "\<forall>z \<in> set zs. f y \<le> f z"
    "\<forall>x \<in> set xs. \<forall>z \<in> set zs. f x \<le> f z"
  using assms by (auto simp: sorted_append)

lemma sorted_insert_mid:
  fixes f :: "'a \<Rightarrow> 'b::linorder"
  assumes "sorted (map f (xs @ ys))" "\<forall>x \<in> set xs. f x \<le> f i" "\<forall>y \<in> set ys. f i \<le> f y"
  shows "sorted (map f (xs @ i # ys))"
  using assms by (auto simp: sorted_append)

lemma insert_node_content:
  "avl t \<Longrightarrow> uniform t \<Longrightarrow> sorted_starts t \<Longrightarrow>
     uniform (insert_node t i) \<and>
     (\<exists>xs ys. all_intervals t = xs @ ys \<and> all_intervals (insert_node t i) = xs @ i # ys
        \<and> (\<forall>x \<in> set xs. istart x \<le> istart i) \<and> (\<forall>y \<in> set ys. istart i \<le> istart y))"
proof (induction t)
  case Null
  then show ?case by simp
next
  case (Node ivs h me l r)
  have al: "avl l" and ar: "avl r" using Node.prems by auto
  have ul: "uniform l" and ur: "uniform r" and ne: "ivs \<noteq> []"
    and same: "\<forall>j \<in> set ivs. istart (hd ivs) = istart j"
    using Node.prems by auto
  have srt: "sorted (map istart (all_intervals l @ ivs @ all_intervals r))"
    using Node.prems(3) by (simp add: sorted_starts_def)
  have hd_in: "hd ivs \<in> set ivs" using ne by simp
  note s3 = sorted_three [OF srt hd_in]
  have sl: "sorted_starts l" and sr: "sorted_starts r"
    using s3(1,2) by (simp_all add: sorted_starts_def)
  have l_le: "\<forall>x \<in> set (all_intervals l). istart x \<le> istart (hd ivs)"
    by (rule s3(3))
  have r_ge: "\<forall>y \<in> set (all_intervals r). istart (hd ivs) \<le> istart y"
    by (rule s3(4))
  consider (lt) "istart i < istart (hd ivs)"
    | (gt) "\<not> istart i < istart (hd ivs)" "istart i > istart (hd ivs)"
    | (eq) "\<not> istart i < istart (hd ivs)" "\<not> istart i > istart (hd ivs)"
    by blast
  then show ?case
  proof cases
    case lt
    note pre = ins_pre_left [OF Node.prems(1), of i]
    from Node.IH(1) [OF al ul sl] obtain xs ys where
      u: "uniform (insert_node l i)" and
      d: "all_intervals l = xs @ ys" "all_intervals (insert_node l i) = xs @ i # ys"
         "\<forall>x \<in> set xs. istart x \<le> istart i" "\<forall>y \<in> set ys. istart i \<le> istart y"
      by blast
    have t': "insert_node (Node ivs h me l r) i =
        insert_rebalance (Node ivs h me (insert_node l i) r) i"
      using lt by simp
    have 1: "uniform (insert_node (Node ivs h me l r) i)"
      unfolding t' insert_rebalance_uniform [OF pre] uniform_Node using u ne same ur by blast
    have 2: "all_intervals (Node ivs h me l r) = xs @ (ys @ ivs @ all_intervals r)"
      using d(1) by simp
    have 3: "all_intervals (insert_node (Node ivs h me l r) i) = xs @ i # (ys @ ivs @ all_intervals r)"
      unfolding t' insert_rebalance_all [OF pre] using d(2) by simp
    have a: "istart i \<le> istart (hd ivs)" using lt by simp
    have b: "\<forall>y \<in> set ivs. istart i \<le> istart y" using same a by metis
    have c: "\<forall>y \<in> set (all_intervals r). istart i \<le> istart y"
      using r_ge a order_trans by blast
    have 4: "\<forall>y \<in> set (ys @ ivs @ all_intervals r). istart i \<le> istart y"
      using d(4) b c by (simp add: ball_Un)
    show ?thesis
      apply (rule conjI [OF 1])
      apply (rule exI [of _ xs])
      apply (rule exI [of _ "ys @ ivs @ all_intervals r"])
      using 2 3 4 d(3) by simp
  next
    case gt
    note pre = ins_pre_right [OF Node.prems(1), of i]
    from Node.IH(2) [OF ar ur sr] obtain xs ys where
      u: "uniform (insert_node r i)" and
      d: "all_intervals r = xs @ ys" "all_intervals (insert_node r i) = xs @ i # ys"
         "\<forall>x \<in> set xs. istart x \<le> istart i" "\<forall>y \<in> set ys. istart i \<le> istart y"
      by blast
    have t': "insert_node (Node ivs h me l r) i =
        insert_rebalance (Node ivs h me l (insert_node r i)) i"
      using gt by simp
    have 1: "uniform (insert_node (Node ivs h me l r) i)"
      unfolding t' insert_rebalance_uniform [OF pre] uniform_Node using u ne same ul by blast
    have 2: "all_intervals (Node ivs h me l r) = (all_intervals l @ ivs @ xs) @ ys"
      using d(1) by simp
    have 3: "all_intervals (insert_node (Node ivs h me l r) i) = (all_intervals l @ ivs @ xs) @ i # ys"
      unfolding t' insert_rebalance_all [OF pre] using d(2) by simp
    have a: "istart (hd ivs) \<le> istart i" using gt by simp
    have b: "\<forall>x \<in> set ivs. istart x \<le> istart i" using same a by metis
    have c: "\<forall>x \<in> set (all_intervals l). istart x \<le> istart i"
      using l_le a order_trans by blast
    have 4: "\<forall>x \<in> set (all_intervals l @ ivs @ xs). istart x \<le> istart i"
      using d(3) b c by (simp add: ball_Un)
    show ?thesis
      apply (rule conjI [OF 1])
      apply (rule exI [of _ "all_intervals l @ ivs @ xs"])
      apply (rule exI [of _ ys])
      using 2 3 4 d(4) by simp
  next
    case eq
    then have k: "istart i = istart (hd ivs)" by auto
    note pre = ins_pre_same [OF Node.prems(1), of i]
    have t': "insert_node (Node ivs h me l r) i = insert_rebalance (Node (ivs @ [i]) h me l r) i"
      using eq by simp
    have hd': "hd (ivs @ [i]) = hd ivs" using ne by simp
    have "\<forall>j \<in> set (ivs @ [i]). istart (hd ivs) = istart j"
    proof
      fix j assume "j \<in> set (ivs @ [i])"
      then have "j \<in> set ivs \<or> j = i" by auto
      then show "istart (hd ivs) = istart j" using same k by metis
    qed
    then have 1: "uniform (insert_node (Node ivs h me l r) i)"
      unfolding t' insert_rebalance_uniform [OF pre] uniform_Node hd' using ul ur by blast
    have 2: "all_intervals (Node ivs h me l r) = (all_intervals l @ ivs) @ all_intervals r"
      by simp
    have 3: "all_intervals (insert_node (Node ivs h me l r) i) =
        (all_intervals l @ ivs) @ i # all_intervals r"
      unfolding t' insert_rebalance_all [OF pre] by simp
    have l4a: "\<forall>x \<in> set ivs. istart x \<le> istart i" using same k by (metis order_refl)
    have l4b: "\<forall>x \<in> set (all_intervals l). istart x \<le> istart i" using l_le unfolding k .
    have 4: "\<forall>x \<in> set (all_intervals l @ ivs). istart x \<le> istart i"
      using l4a l4b by (simp add: ball_Un)
    have 5: "\<forall>y \<in> set (all_intervals r). istart i \<le> istart y"
      using r_ge unfolding k .
    show ?thesis
      apply (rule conjI [OF 1])
      apply (rule exI [of _ "all_intervals l @ ivs"])
      apply (rule exI [of _ "all_intervals r"])
      using 2 3 4 5 by simp
  qed
qed

lemma sorted_insert_node:
  assumes "avl t" "uniform t" "sorted_starts t"
  shows "sorted_starts (insert_node t i)"
    and "set (all_intervals (insert_node t i)) = insert i (set (all_intervals t))"
proof -
  from insert_node_content [OF assms, of i] obtain xs ys where
    d: "all_intervals t = xs @ ys" "all_intervals (insert_node t i) = xs @ i # ys"
       "\<forall>x \<in> set xs. istart x \<le> istart i" "\<forall>y \<in> set ys. istart i \<le> istart y"
    by blast
  have "sorted (map istart (xs @ ys))"
    using assms(3) d(1) by (simp add: sorted_starts_def)
  from sorted_insert_mid [OF this d(3,4)] show "sorted_starts (insert_node t i)"
    unfolding sorted_starts_def d(2) .
  show "set (all_intervals (insert_node t i)) = insert i (set (all_intervals t))"
    using d(1,2) by auto
qed

lemma erase_node_cases [case_names lt gt hit miss leaf two]:
  obtains
    (lt) "k < istart (hd ivs)"
      "erase_node (Node ivs h me l r) k i m =
         (erase_rebalance (Node ivs h me (fst (erase_node l k i m)) r), snd (erase_node l k i m))"
  | (gt) "istart (hd ivs) < k"
      "erase_node (Node ivs h me l r) k i m =
         (erase_rebalance (Node ivs h me l (fst (erase_node r k i m))), snd (erase_node r k i m))"
  | (hit) ivs' where "k = istart (hd ivs)" "length ivs > 1" "erase_by_id ivs i = Some ivs'"
      "erase_node (Node ivs h me l r) k i m =
         (erase_rebalance (Node ivs' h me l r), m(i := None))"
  | (miss) "k = istart (hd ivs)" "length ivs > 1" "erase_by_id ivs i = None"
      "erase_node (Node ivs h me l r) k i m = (erase_rebalance (Node ivs h me l r), m)"
  | (leaf) "k = istart (hd ivs)" "\<not> length ivs > 1" "l = Null \<or> r = Null"
      "erase_node (Node ivs h me l r) k i m =
         (erase_rebalance (if l \<noteq> Null then l else r), m)"
  | (two) "k = istart (hd ivs)" "\<not> length ivs > 1" "l \<noteq> Null" "r \<noteq> Null"
      "erase_node (Node ivs h me l r) k i m =
         (erase_rebalance (Node (hd (intervals (min_value_node r)) # tl ivs) h me l
            (fst (erase_node r (istart (hd (intervals (min_value_node r)))) i m))),
          snd (erase_node r (istart (hd (intervals (min_value_node r)))) i m))"
proof -
  consider (a) "k < istart (hd ivs)"
    | (b) "\<not> k < istart (hd ivs)" "istart (hd ivs) < k"
    | (c) "\<not> k < istart (hd ivs)" "\<not> istart (hd ivs) < k"
    by blast
  then show ?thesis
  proof cases
    case a
    then show ?thesis using lt by (simp add: case_prod_beta)
  next
    case b
    then show ?thesis using gt by (simp add: case_prod_beta)
  next
    case c
    then have k: "k = istart (hd ivs)" by auto
    show ?thesis
    proof (cases "length ivs > 1")
      case True
      show ?thesis
      proof (cases "erase_by_id ivs i")
        case None
        then show ?thesis using miss [OF k True] c True by simp
      next
        case (Some ivs')
        then show ?thesis using hit [OF k True] c True by simp
      qed
    next
      case False
      show ?thesis
      proof (cases "l = Null \<or> r = Null")
        case True
        then show ?thesis using leaf [OF k False] c False by (auto simp: Let_def)
      next
        case F2: False
        then show ?thesis using two [OF k False] c False
          by (simp add: Let_def case_prod_beta)
      qed
    qed
  qed
qed

lemma erase_by_id_Some:
  "erase_by_id ivs i = Some ivs' \<Longrightarrow>
     \<exists>x. x \<in> set ivs \<and> iid x = i \<and> ivs' = remove1 x ivs"
proof (induction ivs arbitrary: ivs')
  case Nil
  then show ?case by simp
next
  case (Cons a ivs)
  show ?case
  proof (cases "iid a = i")
    case True
    then show ?thesis using Cons.prems by auto
  next
    case False
    then obtain ys where ys: "erase_by_id ivs i = Some ys" "ivs' = a # ys"
      using Cons.prems by auto
    from Cons.IH [OF ys(1)] obtain x where
      x: "x \<in> set ivs" "iid x = i" "ys = remove1 x ivs" by blast
    have "a \<noteq> x" using False x(2) by auto
    then have "ivs' = remove1 x (a # ivs)" using ys(2) x(3) by simp
    then show ?thesis using x(1,2) by auto
  qed
qed

lemma erase_by_id_distinct:
  "x \<in> set ivs \<Longrightarrow> distinct (map iid ivs) \<Longrightarrow> erase_by_id ivs (iid x) = Some (remove1 x ivs)"
proof (induction ivs)
  case Nil
  then show ?case by simp
next
  case (Cons a ivs)
  show ?case
  proof (cases "a = x")
    case True
    then show ?thesis by simp
  next
    case False
    then have x: "x \<in> set ivs" using Cons.prems(1) by simp
    then have "iid a \<noteq> iid x" using Cons.prems(2) by force
    then show ?thesis using Cons.IH [OF x] Cons.prems(2) False by simp
  qed
qed

lemma remove1_uniform:
  assumes "ivs \<noteq> []" "\<forall>j \<in> set ivs. istart (hd ivs) = istart j" "length ivs > 1"
  shows "remove1 x ivs \<noteq> [] \<and> (\<forall>j \<in> set (remove1 x ivs). istart (hd (remove1 x ivs)) = istart j)"
proof -
  have ne: "remove1 x ivs \<noteq> []"
    using assms(3) by (cases ivs) (auto split: if_splits)
  then have "hd (remove1 x ivs) \<in> set ivs"
    using set_remove1_subset [of x ivs] hd_in_set [OF ne] by blast
  then have "istart (hd (remove1 x ivs)) = istart (hd ivs)" using assms(2) by metis
  moreover have "\<forall>j \<in> set (remove1 x ivs). istart (hd ivs) = istart j"
    using assms(2) set_remove1_subset [of x ivs] by blast
  ultimately show ?thesis using ne by metis
qed

lemma min_value_node_front:
  "t \<noteq> Null \<Longrightarrow> uniform t \<Longrightarrow>
     all_intervals t \<noteq> [] \<and> hd (intervals (min_value_node t)) = hd (all_intervals t)"
proof (induction t)
  case Null
  then show ?case by simp
next
  case (Node ivs h me l r)
  have ne: "ivs \<noteq> []" and ul: "uniform l" using Node.prems(2) by auto
  show ?case
  proof (cases "l = Null")
    case True
    then show ?thesis using ne by simp
  next
    case False
    from Node.IH(1) [OF False ul] show ?thesis using False by simp
  qed
qed

lemma sorted_replace_left:
  fixes f :: "'a \<Rightarrow> 'b::linorder"
  assumes "sorted (map f (xs @ rest))" "sorted (map f xs')" "set xs' \<subseteq> set xs"
  shows "sorted (map f (xs' @ rest))"
  using assms by (auto simp: sorted_append)

lemma sorted_replace_right:
  fixes f :: "'a \<Rightarrow> 'b::linorder"
  assumes "sorted (map f (pre @ zs))" "sorted (map f zs')" "set zs' \<subseteq> set zs"
  shows "sorted (map f (pre @ zs'))"
  using assms by (auto simp: sorted_append)

lemma sorted_replace_mid:
  fixes f :: "'a \<Rightarrow> 'b::linorder"
  assumes "sorted (map f (xs @ ys @ zs))" "sorted (map f ys')" "set ys' \<subseteq> set ys"
  shows "sorted (map f (xs @ ys' @ zs))"
  using assms by (auto simp: sorted_append)

lemma sorted_successor:
  fixes f :: "'a \<Rightarrow> 'b::linorder"
  assumes "sorted (map f (xs @ ys @ zs))" "zs \<noteq> []" "sorted (map f zs')" "set zs' \<subseteq> set zs"
  shows "sorted (map f (xs @ [hd zs] @ zs'))"
proof -
  obtain z zt where z: "zs = z # zt" using assms(2) by (cases zs) auto
  show ?thesis using assms(1,3,4) unfolding z by (auto simp: sorted_append)
qed

lemma upper_erase_node: "avl t \<Longrightarrow> upper t \<Longrightarrow> upper (fst (erase_node t k i m))"
proof (induction t arbitrary: k m)
  case Null
  then show ?case by simp
next
  case (Node ivs h me l r)
  have al: "avl l" and ar: "avl r" using Node.prems(1) by auto
  have ul: "upper l" and ur: "upper r" and ne: "ivs \<noteq> []" using Node.prems(2) by auto
  note same = era_pre_same [OF Node.prems(1)]
  show ?case
  proof (cases rule: erase_node_cases [of k ivs h me l r i m])
    case lt
    show ?thesis unfolding lt(2) fst_conv
      by (rule upper_erase_rebalance' [OF era_pre_left [OF Node.prems(1)] ne
            Node.IH(1) [OF al ul] ur])
  next
    case gt
    show ?thesis unfolding gt(2) fst_conv
      by (rule upper_erase_rebalance' [OF era_pre_right [OF Node.prems(1)] ne
            ul Node.IH(2) [OF ar ur]])
  next
    case (hit ivs')
    from erase_by_id_Some [OF hit(3)] obtain x where x: "ivs' = remove1 x ivs" by blast
    have "ivs' \<noteq> []" unfolding x using hit(2) by (cases ivs) (auto split: if_splits)
    then show ?thesis unfolding hit(4) fst_conv
      by (rule upper_erase_rebalance' [OF same _ ul ur])
  next
    case miss
    show ?thesis unfolding miss(4) fst_conv
      by (rule upper_erase_rebalance' [OF same ne ul ur])
  next
    case leaf
    have "upper (if l \<noteq> Null then l else r)" "avl (if l \<noteq> Null then l else r)"
      using ul ur al ar by auto
    then show ?thesis unfolding leaf(4) fst_conv using erase_rebalance_whole(2) by blast
  next
    case two
    show ?thesis unfolding two(5) fst_conv
      by (rule upper_erase_rebalance' [OF era_pre_right [OF Node.prems(1)] _
            ul Node.IH(2) [OF ar ur]]) simp
  qed
qed

lemma erase_node_inv:
  "avl t \<Longrightarrow> uniform t \<Longrightarrow> sorted_starts t \<Longrightarrow>
     uniform (fst (erase_node t k i m)) \<and> sorted_starts (fst (erase_node t k i m))
     \<and> set (all_intervals (fst (erase_node t k i m))) \<subseteq> set (all_intervals t)"
proof (induction t arbitrary: k m)
  case Null
  then show ?case by (simp add: sorted_starts_def)
next
  case (Node ivs h me l r)
  have al: "avl l" and ar: "avl r" using Node.prems(1) by auto
  have ul: "uniform l" and ur: "uniform r" and ne: "ivs \<noteq> []"
    and same: "\<forall>j \<in> set ivs. istart (hd ivs) = istart j"
    using Node.prems(2) by auto
  have srt: "sorted (map istart (all_intervals l @ ivs @ all_intervals r))"
    using Node.prems(3) by (simp add: sorted_starts_def)
  have hd_in: "hd ivs \<in> set ivs" using ne by simp
  note s3 = sorted_three [OF srt hd_in]
  have sl: "sorted_starts l" and sr: "sorted_starts r"
    using s3(1,2) by (simp_all add: sorted_starts_def)
  note IHl = Node.IH(1) [OF al ul sl]
  note IHr = Node.IH(2) [OF ar ur sr]
  note pre = era_pre_same [OF Node.prems(1)]
  show ?case
  proof (cases rule: erase_node_cases [of k ivs h me l r i m])
    case lt
    let ?l' = "fst (erase_node l k i m)"
    note p = era_pre_left [OF Node.prems(1), of k i m]
    have a: "uniform ?l'" "sorted (map istart (all_intervals ?l'))"
      "set (all_intervals ?l') \<subseteq> set (all_intervals l)"
      using IHl [of k m] by (simp_all add: sorted_starts_def)
    have "sorted (map istart (all_intervals ?l' @ ivs @ all_intervals r))"
      by (rule sorted_replace_left [OF srt a(2,3)])
    then show ?thesis unfolding lt(2) fst_conv sorted_starts_def
        erase_rebalance_uniform [OF p] erase_rebalance_all [OF p] uniform_Node
      using a(1,3) ne same ur by auto
  next
    case gt
    let ?r' = "fst (erase_node r k i m)"
    note p = era_pre_right [OF Node.prems(1), of k i m]
    have a: "uniform ?r'" "sorted (map istart (all_intervals ?r'))"
      "set (all_intervals ?r') \<subseteq> set (all_intervals r)"
      using IHr [of k m] by (simp_all add: sorted_starts_def)
    have "sorted (map istart ((all_intervals l @ ivs) @ all_intervals ?r'))"
      using sorted_replace_right [of istart "all_intervals l @ ivs", OF _ a(2,3)] srt by simp
    then show ?thesis unfolding gt(2) fst_conv sorted_starts_def
        erase_rebalance_uniform [OF p] erase_rebalance_all [OF p] uniform_Node
      using a(1,3) ne same ul by auto
  next
    case (hit ivs')
    from erase_by_id_Some [OF hit(3)] obtain x where x: "ivs' = remove1 x ivs" by blast
    have u: "ivs' \<noteq> []" "\<forall>j \<in> set ivs'. istart (hd ivs') = istart j"
      using remove1_uniform [OF ne same hit(2), of x] unfolding x by blast+
    have sub: "set ivs' \<subseteq> set ivs" unfolding x by (rule set_remove1_subset)
    have "sorted (map istart ivs)" using srt by (simp add: sorted_append)
    then have "sorted (map istart ivs')" unfolding x by (rule sorted_map_remove1)
    then have "sorted (map istart (all_intervals l @ ivs' @ all_intervals r))"
      using sorted_replace_mid [OF srt _ sub] by blast
    then show ?thesis unfolding hit(4) fst_conv sorted_starts_def
        erase_rebalance_uniform [OF pre] erase_rebalance_all [OF pre] uniform_Node
      using u sub ul ur by auto
  next
    case miss
    show ?thesis unfolding miss(4) fst_conv sorted_starts_def
        erase_rebalance_uniform [OF pre] erase_rebalance_all [OF pre] uniform_Node
      using srt ne same ul ur by auto
  next
    case leaf
    let ?c = "if l \<noteq> Null then l else r"
    have c: "avl ?c" "uniform ?c" "sorted_starts ?c"
      "set (all_intervals ?c) \<subseteq> set (all_intervals (Node ivs h me l r))"
      using al ar ul ur sl sr by auto
    have nl: "node_lists (erase_rebalance ?c) = node_lists ?c"
      by (rule erase_rebalance_whole(1) [OF c(1)])
    have "uniform (erase_rebalance ?c) = uniform ?c"
      "all_intervals (erase_rebalance ?c) = all_intervals ?c"
      unfolding uniform_def all_intervals_def nl by simp_all
    then show ?thesis unfolding leaf(4) fst_conv sorted_starts_def
      using c(2-4) unfolding sorted_starts_def by simp
  next
    case two
    define s where "s = hd (intervals (min_value_node r))"
    let ?r' = "fst (erase_node r (istart s) i m)"
    note p = era_pre_right [OF Node.prems(1), of "istart s" i m]
    have a: "uniform ?r'" "sorted (map istart (all_intervals ?r'))"
      "set (all_intervals ?r') \<subseteq> set (all_intervals r)"
      using IHr [of "istart s" m] by (simp_all add: sorted_starts_def)
    have tl: "tl ivs = []" using two(2) ne by (cases ivs) auto
    have mf: "all_intervals r \<noteq> []" "s = hd (all_intervals r)"
      using min_value_node_front [OF two(4) ur] by (simp_all add: s_def)
    have sin: "s \<in> set (all_intervals r)" using mf by simp
    have "sorted (map istart (all_intervals l @ [s] @ all_intervals ?r'))"
      using sorted_successor [OF srt mf(1) a(2,3)] unfolding mf(2) [symmetric] .
    then show ?thesis unfolding two(5) fst_conv sorted_starts_def s_def [symmetric] tl
        erase_rebalance_uniform [OF p] erase_rebalance_all [OF p] uniform_Node
      using a(1,3) ul sin by auto
  qed
qed

section \<open>Invariants of every reachable registry\<close>

lemma tree_inv_insert_node:
  assumes "tree_inv t"
  shows "tree_inv (insert_node t i)"
  using assms insert_node_avl [of t i] insert_node_content [of t i]
    sorted_insert_node(1) [of t i] upper_insert_node [of t i]
  unfolding tree_inv_def by blast

lemma tree_inv_erase_node:
  assumes "tree_inv t"
  shows "tree_inv (fst (erase_node t k i m))"
  using assms erase_node_avl [of t k i m] erase_node_inv [of t k i m]
    upper_erase_node [of t k i m]
  unfolding tree_inv_def by blast

lemma tree_inv_Null: "tree_inv Null"
  by (simp add: tree_inv_def sorted_starts_def)

lemma root_tree_insert: "root (snd (tree_insert i t)) = insert_node (root t) (i\<lparr>iid := next_id t\<rparr>)"
  by (simp add: tree_insert_def Let_def)

lemma root_tree_erase:
  "root (tree_erase n t) =
     (case id_to_node t n of None \<Rightarrow> root t
      | Some e \<Rightarrow> fst (erase_node (root t) (istart e) n (id_to_node t)))"
  by (simp add: tree_erase_def case_prod_beta split: option.split)

lemma tree_inv_apply_op: "tree_inv (root t) \<Longrightarrow> tree_inv (root (apply_op t op))"
proof (cases op)
  case (Insert s e v)
  assume "tree_inv (root t)"
  then show ?thesis unfolding Insert apply_op.simps root_tree_insert
    by (rule tree_inv_insert_node)
next
  case (Erase n)
  assume "tree_inv (root t)"
  then show ?thesis unfolding Erase apply_op.simps root_tree_erase
    by (cases "id_to_node t n") (simp_all add: tree_inv_erase_node)
qed

lemma run_Nil: "run [] = new_tree"
  by (simp add: run_def)

lemma run_snoc: "run (ops @ [op]) = apply_op (run ops) op"
  by (simp add: run_def)

lemma tree_inv_run: "tree_inv (root (run ops))"
proof (induction ops rule: rev_induct)
  case Nil
  show ?case by (simp add: run_Nil new_tree_def tree_inv_Null)
next
  case (snoc op ops)
  then show ?case unfolding run_snoc by (rule tree_inv_apply_op)
qed

lemma avl_height_depth: "avl t \<Longrightarrow> height t = depth t"
  by (induction t) auto

lemma avl_balanced: "avl t \<Longrightarrow> balanced t"
proof (induction t)
  case Null
  then show ?case by simp
next
  case (Node ivs h me l r)
  then have "avl l" "avl r" by auto
  then have "height l = depth l" "height r = depth r" "balanced l" "balanced r"
    using Node.IH avl_height_depth by blast+
  moreover have "height l - height r \<le> 1" "height r - height l \<le> 1"
    using Node.prems by auto
  ultimately show ?case by auto
qed

text \<open>
  C4.  After every sequence of insert and erase operations, every node's
  balance factor (height of its left subtree minus height of its right
  subtree) is in \<open>{-1, 0, 1}\<close>; this holds for the true heights and for the
  stored ones that \<^verbatim>\<open>get_balance\<close> reads.
\<close>

theorem C4_balance: "balanced (root (run ops))"
  using tree_inv_run [of ops] avl_balanced unfolding tree_inv_def by blast

text \<open>
  Witness of C4: the registry of C1 after \<^verbatim>\<open>erase(0)\<close> and two more inserts.
\<close>

theorem C4_witness:
  "balanced (root (run (successor_with_two @ [Erase 0, Insert 30 31 (), Insert 40 41 ()])))"
  by (rule C4_balance)

section \<open>Queries\<close>

lemma query_node_sound:
  "uniform t \<Longrightarrow> j \<in> set (query_node t p) \<Longrightarrow>
     j \<in> set (all_intervals t) \<and> istart j \<le> p \<and> p \<le> iend j"
proof (induction t)
  case Null
  then show ?case by simp
next
  case (Node ivs h me l r)
  have ul: "uniform l" and ur: "uniform r"
    and same: "\<forall>j \<in> set ivs. istart (hd ivs) = istart j"
    using Node.prems(1) by auto
  let ?own = "if istart (hd ivs) \<le> p then filter (\<lambda>interval. p \<le> iend interval) ivs else []"
  let ?lq = "if l \<noteq> Null \<and> p \<le> max_end l then query_node l p else []"
  let ?rq = "if r \<noteq> Null \<and> istart (hd ivs) \<le> p then query_node r p else []"
  have q: "query_node (Node ivs h me l r) p = ?own @ ?lq @ ?rq"
    by (simp add: Let_def)
  have "j \<in> set ?own \<or> j \<in> set ?lq \<or> j \<in> set ?rq"
    using Node.prems(2) unfolding q by simp
  then consider (own) "j \<in> set ?own" | (lq) "j \<in> set (query_node l p)"
    | (rq) "j \<in> set (query_node r p)"
    by (auto split: if_splits)
  then show ?case
  proof cases
    case own
    then have "j \<in> set ivs" "istart (hd ivs) \<le> p" "p \<le> iend j" by (auto split: if_splits)
    moreover from this same have "istart j \<le> p" by metis
    ultimately show ?thesis by simp
  next
    case lq
    from Node.IH(1) [OF ul lq] show ?thesis by simp
  next
    case rq
    from Node.IH(2) [OF ur rq] show ?thesis by simp
  qed
qed

lemma query_node_complete:
  "uniform t \<Longrightarrow> sorted_starts t \<Longrightarrow> upper t \<Longrightarrow> j \<in> set (all_intervals t) \<Longrightarrow>
     istart j \<le> p \<Longrightarrow> p \<le> iend j \<Longrightarrow> j \<in> set (query_node t p)"
proof (induction t)
  case Null
  then show ?case by simp
next
  case (Node ivs h me l r)
  have ul: "uniform l" and ur: "uniform r" and ne: "ivs \<noteq> []"
    and same: "\<forall>j \<in> set ivs. istart (hd ivs) = istart j"
    using Node.prems(1) by auto
  have srt: "sorted (map istart (all_intervals l @ ivs @ all_intervals r))"
    using Node.prems(2) by (simp add: sorted_starts_def)
  have hd_in: "hd ivs \<in> set ivs" using ne by simp
  note s3 = sorted_three [OF srt hd_in]
  have sl: "sorted_starts l" and sr: "sorted_starts r"
    using s3(1,2) by (simp_all add: sorted_starts_def)
  have upl: "upper l" and upr: "upper r" using Node.prems(3) by auto
  let ?own = "if istart (hd ivs) \<le> p then filter (\<lambda>interval. p \<le> iend interval) ivs else []"
  let ?lq = "if l \<noteq> Null \<and> p \<le> max_end l then query_node l p else []"
  let ?rq = "if r \<noteq> Null \<and> istart (hd ivs) \<le> p then query_node r p else []"
  have q: "query_node (Node ivs h me l r) p = ?own @ ?lq @ ?rq"
    by (simp add: Let_def)
  consider (inl) "j \<in> set (all_intervals l)" | (own) "j \<in> set ivs"
    | (inr) "j \<in> set (all_intervals r)"
    using Node.prems(4) by auto
  then show ?case
  proof cases
    case inl
    then have "l \<noteq> Null" by auto
    moreover have "iend j \<le> max_end l" by (rule upper_max_end [OF upl inl])
    then have "p \<le> max_end l" using Node.prems(6) by (rule order_trans [rotated])
    moreover have "j \<in> set (query_node l p)"
      by (rule Node.IH(1) [OF ul sl upl inl Node.prems(5,6)])
    ultimately have "j \<in> set ?lq" by simp
    then show ?thesis unfolding q by simp
  next
    case own
    then have "istart (hd ivs) = istart j" using same by blast
    then have "istart (hd ivs) \<le> p" using Node.prems(5) by simp
    then have "j \<in> set ?own" using own Node.prems(6) by simp
    then show ?thesis unfolding q by simp
  next
    case inr
    then have "r \<noteq> Null" by auto
    moreover have "istart (hd ivs) \<le> istart j" using s3(4) inr by blast
    then have "istart (hd ivs) \<le> p" using Node.prems(5) by (rule order_trans)
    moreover have "j \<in> set (query_node r p)"
      by (rule Node.IH(2) [OF ur sr upr inr Node.prems(5,6)])
    ultimately have "j \<in> set ?rq" by simp
    then show ?thesis unfolding q by simp
  qed
qed

lemma query_empty_when_unwatched:
  assumes "uniform t"
    and "\<forall>i \<in> set (all_intervals t). \<not> (istart i \<le> a \<and> a \<le> iend i)"
  shows "query_node t a = []"
proof (rule ccontr)
  assume "query_node t a \<noteq> []"
  then obtain j where "j \<in> set (query_node t a)" by (cases "query_node t a") auto
  from query_node_sound [OF assms(1) this] assms(2) show False by blast
qed

text \<open>
  On every reachable registry a query returns exactly the stored intervals
  that contain the point (as a set: an interval stored twice is returned
  twice).
\<close>

theorem query_stored_exact:
  "set (tree_query (run ops) p) =
     {j \<in> set (all_intervals (root (run ops))). istart j \<le> p \<and> p \<le> iend j}"
proof -
  have inv: "uniform (root (run ops))" "sorted_starts (root (run ops))" "upper (root (run ops))"
    using tree_inv_run [of ops] by (simp_all add: tree_inv_def)
  show ?thesis unfolding tree_query_def
    using query_node_sound [OF inv(1)] query_node_complete [OF inv] by blast
qed

text \<open>
  The same with multiplicities: a stored interval that contains the point is
  returned as often as it is stored.
\<close>

lemma query_node_mset:
  "uniform t \<Longrightarrow> sorted_starts t \<Longrightarrow> upper t \<Longrightarrow>
     mset (query_node t p) =
       filter_mset (\<lambda>j. istart j \<le> p \<and> p \<le> iend j) (mset (all_intervals t))"
proof (induction t)
  case Null
  then show ?case by simp
next
  case (Node ivs h me l r)
  let ?P = "\<lambda>j. istart j \<le> p \<and> p \<le> iend j"
  have ul: "uniform l" and ur: "uniform r" and ne: "ivs \<noteq> []"
    and same: "\<forall>j \<in> set ivs. istart (hd ivs) = istart j"
    using Node.prems(1) by auto
  have srt: "sorted (map istart (all_intervals l @ ivs @ all_intervals r))"
    using Node.prems(2) by (simp add: sorted_starts_def)
  have hd_in: "hd ivs \<in> set ivs" using ne by simp
  note s3 = sorted_three [OF srt hd_in]
  have sl: "sorted_starts l" and sr: "sorted_starts r"
    using s3(1,2) by (simp_all add: sorted_starts_def)
  have upl: "upper l" and upr: "upper r" using Node.prems(3) by auto
  let ?own = "if istart (hd ivs) \<le> p then filter (\<lambda>interval. p \<le> iend interval) ivs else []"
  let ?lq = "if l \<noteq> Null \<and> p \<le> max_end l then query_node l p else []"
  let ?rq = "if r \<noteq> Null \<and> istart (hd ivs) \<le> p then query_node r p else []"
  have q: "query_node (Node ivs h me l r) p = ?own @ ?lq @ ?rq"
    by (simp add: Let_def)
  have own: "mset ?own = filter_mset ?P (mset ivs)"
  proof -
    have f1: "filter ?P ivs = filter (\<lambda>j. istart (hd ivs) \<le> p \<and> p \<le> iend j) ivs"
    proof (rule filter_cong [OF refl])
      fix j assume "j \<in> set ivs"
      then have "istart (hd ivs) = istart j" using same by blast
      then show "?P j = (istart (hd ivs) \<le> p \<and> p \<le> iend j)" by simp
    qed
    have f2: "?own = filter (\<lambda>j. istart (hd ivs) \<le> p \<and> p \<le> iend j) ivs"
      by (cases "istart (hd ivs) \<le> p") simp_all
    have "?own = filter ?P ivs" by (rule trans [OF f2 f1 [symmetric]])
    then show ?thesis unfolding mset_filter [symmetric] by (rule arg_cong)
  qed
  have lq: "mset ?lq = filter_mset ?P (mset (all_intervals l))"
  proof (cases "l \<noteq> Null \<and> p \<le> max_end l")
    case True
    then show ?thesis using Node.IH(1) [OF ul sl upl] by simp
  next
    case False
    have "\<And>j. j \<in> set (all_intervals l) \<Longrightarrow> \<not> ?P j"
    proof -
      fix j assume j: "j \<in> set (all_intervals l)"
      then have "l \<noteq> Null" by auto
      then have "max_end l < p" using False by auto
      moreover have "iend j \<le> max_end l" by (rule upper_max_end [OF upl j])
      ultimately show "\<not> ?P j" by auto
    qed
    then have "filter ?P (all_intervals l) = []" by (simp add: filter_empty_conv)
    then have "filter_mset ?P (mset (all_intervals l)) = {#}" by (metis mset_filter mset.simps(1))
    moreover have "(if l \<noteq> Null \<and> p \<le> max_end l then query_node l p else []) = []"
      by (simp only: False if_False)
    ultimately show ?thesis by simp
  qed
  have rq: "mset ?rq = filter_mset ?P (mset (all_intervals r))"
  proof (cases "r \<noteq> Null \<and> istart (hd ivs) \<le> p")
    case True
    then show ?thesis using Node.IH(2) [OF ur sr upr] by simp
  next
    case False
    have "\<And>j. j \<in> set (all_intervals r) \<Longrightarrow> \<not> ?P j"
    proof -
      fix j assume j: "j \<in> set (all_intervals r)"
      then have "r \<noteq> Null" by auto
      then have "p < istart (hd ivs)" using False by auto
      moreover have "istart (hd ivs) \<le> istart j" using s3(4) j by blast
      ultimately show "\<not> ?P j" by auto
    qed
    then have "filter ?P (all_intervals r) = []" by (simp add: filter_empty_conv)
    then have "filter_mset ?P (mset (all_intervals r)) = {#}" by (metis mset_filter mset.simps(1))
    moreover have "(if r \<noteq> Null \<and> istart (hd ivs) \<le> p then query_node r p else []) = []"
      by (simp only: False if_False)
    ultimately show ?thesis by simp
  qed
  have "mset (query_node (Node ivs h me l r) p) = mset ?own + mset ?lq + mset ?rq"
    unfolding q by simp
  also have "\<dots> = filter_mset ?P (mset ivs) + filter_mset ?P (mset (all_intervals l))
      + filter_mset ?P (mset (all_intervals r))"
    unfolding own lq rq ..
  also have "\<dots> = filter_mset ?P (mset (all_intervals (Node ivs h me l r)))"
    by simp
  finally show ?case .
qed

theorem query_stored_exact_mset:
  "mset (tree_query (run ops) p) =
     filter_mset (\<lambda>j. istart j \<le> p \<and> p \<le> iend j) (mset (all_intervals (root (run ops))))"
proof -
  have inv: "uniform (root (run ops))" "sorted_starts (root (run ops))" "upper (root (run ops))"
    using tree_inv_run [of ops] by (simp_all add: tree_inv_def)
  show ?thesis unfolding tree_query_def by (rule query_node_mset [OF inv])
qed

text \<open>
  The scenario of the source comment: \<open>[25,35]\<close> at the root, \<open>[15,45]\<close> as left
  and \<open>[30,40]\<close> as right child; the query at \<open>35\<close> returns all three.
\<close>

lemma query_scenario:
  "root (run [Insert 25 35 (), Insert 15 45 (), Insert 30 40 ()]) =
     Node [\<lparr>istart = 25, iend = 35, ivalue = (), iid = 0\<rparr>] 2 45
       (Node [\<lparr>istart = 15, iend = 45, ivalue = (), iid = 1\<rparr>] 1 45 Null Null)
       (Node [\<lparr>istart = 30, iend = 40, ivalue = (), iid = 2\<rparr>] 1 40 Null Null)
   \<and> tree_query (run [Insert 25 35 (), Insert 15 45 (), Insert 30 40 ()]) 35 =
       [\<lparr>istart = 25, iend = 35, ivalue = (), iid = 0\<rparr>,
        \<lparr>istart = 15, iend = 45, ivalue = (), iid = 1\<rparr>,
        \<lparr>istart = 30, iend = 40, ivalue = (), iid = 2\<rparr>]"
  by code_simp

text \<open>
  C1 (the code departs from the claim).  The claim: a query returns exactly
  the currently inserted intervals that contain the point, each once.  With
  \<open>[10,11]\<close> (id 0) at the root, \<open>[5,6]\<close> (id 1) on the left and \<open>[20,30]\<close> (id 2),
  \<open>[20,40]\<close> (id 3) sharing the right node, \<^verbatim>\<open>erase(0)\<close> copies the interval with
  id 2 into the root and leaves it in the right node as well; the query at
  \<open>25\<close> then returns it twice.
\<close>

theorem C1_query_returns_interval_twice:
  "tree_query (run (successor_with_two @ [Erase 0])) 25 =
     [\<lparr>istart = 20, iend = 30, ivalue = (), iid = 2\<rparr>,
      \<lparr>istart = 20, iend = 30, ivalue = (), iid = 2\<rparr>,
      \<lparr>istart = 20, iend = 40, ivalue = (), iid = 3\<rparr>]"
  by code_simp

text \<open>
  C3 (the code departs from the claim).  The claim: after every sequence of
  inserts and erases every node's \<open>max_end\<close> equals the true maximum end.
  Inserting \<open>[1,1]\<close>, \<open>[2,2]\<close>, \<open>[3,100]\<close> triggers one left rotation; the demoted
  node \<open>[1,1]\<close> is then a leaf whose \<open>max_end\<close> is still \<open>100\<close>.
\<close>

theorem C3_max_end_stale_after_rotation:
  "root (run [Insert 1 1 (), Insert 2 2 (), Insert 3 100 ()]) =
     Node [\<lparr>istart = 2, iend = 2, ivalue = (), iid = 1\<rparr>] 2 100
       (Node [\<lparr>istart = 1, iend = 1, ivalue = (), iid = 0\<rparr>] 1 100 Null Null)
       (Node [\<lparr>istart = 3, iend = 100, ivalue = (), iid = 2\<rparr>] 1 100 Null Null)
   \<and> \<not> max_end_exact (root (run [Insert 1 1 (), Insert 2 2 (), Insert 3 100 ()]))"
  by code_simp

text \<open>
  C5 (the code departs from the claim).  The claim: when the erased node
  holds one interval and has two children, the successor's front interval
  replaces it and is removed from the successor, so it is stored in exactly
  one node afterwards.  In the registry of C1 the successor holds two
  intervals; the recursive call searches it for the erased id \<open>0\<close>, finds
  none and removes nothing: the interval with id 2 is stored in the root and
  in the right node.  The side index still maps id \<open>0\<close>.
\<close>

theorem C5_successor_front_kept_twice:
  "root (run successor_with_two) =
     Node [\<lparr>istart = 10, iend = 11, ivalue = (), iid = 0\<rparr>] 2 40
       (Node [\<lparr>istart = 5, iend = 6, ivalue = (), iid = 1\<rparr>] 1 6 Null Null)
       (Node [\<lparr>istart = 20, iend = 30, ivalue = (), iid = 2\<rparr>,
              \<lparr>istart = 20, iend = 40, ivalue = (), iid = 3\<rparr>] 1 40 Null Null)
   \<and> root (run (successor_with_two @ [Erase 0])) =
     Node [\<lparr>istart = 20, iend = 30, ivalue = (), iid = 2\<rparr>] 2 40
       (Node [\<lparr>istart = 5, iend = 6, ivalue = (), iid = 1\<rparr>] 1 6 Null Null)
       (Node [\<lparr>istart = 20, iend = 30, ivalue = (), iid = 2\<rparr>,
              \<lparr>istart = 20, iend = 40, ivalue = (), iid = 3\<rparr>] 1 40 Null Null)
   \<and> id_to_node (run (successor_with_two @ [Erase 0])) 0 =
       Some \<lparr>istart = 10, iend = 11, ivalue = (), iid = 0\<rparr>"
  by code_simp

text \<open>
  C6 (the code departs from the claim).  The claim: erasing all inserted ids
  leaves \<^verbatim>\<open>empty()\<close> true and the side index without entries.  After one
  insert and its erase the tree is empty but the side index still holds the
  id: only the branch for a node with several intervals erases from it.  In
  the registry of C1, erasing the ids in the order 0, 2, 3, 1 leaves a node
  in the tree.
\<close>

theorem C6_side_index_keeps_erased_id:
  "tree_empty (run [Insert 10 20 (), Erase 0])
   \<and> id_to_node (run [Insert 10 20 (), Erase 0]) 0 =
       Some \<lparr>istart = 10, iend = 20, ivalue = (), iid = 0\<rparr>
   \<and> \<not> tree_empty (run (successor_with_two @ [Erase 0, Erase 2, Erase 3, Erase 1]))"
  by code_simp

text \<open>
  A consequence of the entry left in the side index: erasing id \<open>0\<close> a second
  time, after another interval was inserted at the same start, removes that
  other interval (id \<open>1\<close>).
\<close>

lemma stale_id_erases_other_interval:
  "tree_query (run [Insert 10 20 (), Erase 0, Insert 10 30 ()]) 15 =
     [\<lparr>istart = 10, iend = 30, ivalue = (), iid = 1\<rparr>]
   \<and> tree_empty (run [Insert 10 20 (), Erase 0, Insert 10 30 (), Erase 0])"
  by code_simp

section \<open>Erasing one of several intervals with the same start\<close>

lemma keys_simps [simp]:
  "keys Null = []"
  "keys (Node ivs h me l r) = keys l @ istart (hd ivs) # keys r"
  by (simp_all add: keys_def)

lemma start_in_keys: "uniform t \<Longrightarrow> j \<in> set (all_intervals t) \<Longrightarrow> istart j \<in> set (keys t)"
proof (induction t)
  case Null
  then show ?case by simp
next
  case (Node ivs h me l r)
  have ul: "uniform l" and ur: "uniform r"
    and same: "\<forall>j \<in> set ivs. istart (hd ivs) = istart j"
    using Node.prems(1) by auto
  consider "j \<in> set (all_intervals l)" | "j \<in> set ivs" | "j \<in> set (all_intervals r)"
    using Node.prems(2) by auto
  then show ?case
  proof cases
    case 1
    then show ?thesis using Node.IH(1) [OF ul] by simp
  next
    case 2
    then have "istart (hd ivs) = istart j" using same by blast
    then show ?thesis by simp
  next
    case 3
    then show ?thesis using Node.IH(2) [OF ur] by simp
  qed
qed

lemma bst_Node:
  assumes "uniform (Node ivs h me l r)" "bst (Node ivs h me l r)"
  shows "bst l" "bst r"
    "\<forall>j \<in> set (all_intervals l). istart j < istart (hd ivs)"
    "\<forall>j \<in> set (all_intervals r). istart (hd ivs) < istart j"
proof -
  have s: "sorted_wrt (<) (keys l @ istart (hd ivs) # keys r)"
    using assms(2) by (simp add: bst_def)
  then show "bst l" "bst r" by (simp_all add: bst_def sorted_wrt_append)
  have lk: "\<forall>k \<in> set (keys l). k < istart (hd ivs)"
    and rk: "\<forall>k \<in> set (keys r). istart (hd ivs) < k"
    using s by (auto simp: sorted_wrt_append)
  have ul: "uniform l" and ur: "uniform r" using assms(1) by auto
  show "\<forall>j \<in> set (all_intervals l). istart j < istart (hd ivs)"
    using lk start_in_keys [OF ul] by blast
  show "\<forall>j \<in> set (all_intervals r). istart (hd ivs) < istart j"
    using rk start_in_keys [OF ur] by blast
qed

lemma sorted_const:
  fixes f :: "'a \<Rightarrow> 'b::linorder"
  shows "\<forall>j \<in> set xs. c = f j \<Longrightarrow> sorted (map f xs)"
  by (induction xs) auto

lemma sorted_glue:
  fixes f :: "'a \<Rightarrow> 'b::linorder"
  assumes "sorted (map f xs)" "sorted (map f ys)" "sorted (map f zs)"
    "\<forall>x \<in> set xs. f x < c" "\<forall>y \<in> set ys. c = f y" "\<forall>z \<in> set zs. c < f z"
  shows "sorted (map f (xs @ ys @ zs))"
  using assms by (fastforce simp: sorted_append)

lemma bst_sorted_starts: "uniform t \<Longrightarrow> bst t \<Longrightarrow> sorted_starts t"
proof (induction t)
  case Null
  then show ?case by (simp add: sorted_starts_def)
next
  case (Node ivs h me l r)
  have ul: "uniform l" and ur: "uniform r"
    and same: "\<forall>j \<in> set ivs. istart (hd ivs) = istart j"
    using Node.prems(1) by auto
  note b = bst_Node [OF Node.prems]
  have "sorted (map istart (all_intervals l))" "sorted (map istart (all_intervals r))"
    using Node.IH(1) [OF ul b(1)] Node.IH(2) [OF ur b(2)] by (simp_all add: sorted_starts_def)
  moreover have "sorted (map istart ivs)" using same by (rule sorted_const)
  ultimately have "sorted (map istart (all_intervals l @ ivs @ all_intervals r))"
    using b(3,4) same by (intro sorted_glue [where c = "istart (hd ivs)"])
  then show ?case by (simp add: sorted_starts_def)
qed

lemma erase_node_multi:
  assumes "avl t" "uniform t" "bst t" "distinct (map iid (all_intervals t))"
    and "x \<in> set (all_intervals t)" "y \<in> set (all_intervals t)" "y \<noteq> x" "istart y = istart x"
  shows "all_intervals (fst (erase_node t (istart x) (iid x) m)) = remove1 x (all_intervals t)
         \<and> snd (erase_node t (istart x) (iid x) m) = m(iid x := None)"
  using assms
proof (induction t)
  case Null
  then show ?case by simp
next
  case (Node ivs h me l r)
  have al: "avl l" and ar: "avl r" using Node.prems(1) by auto
  have ul: "uniform l" and ur: "uniform r" and ne: "ivs \<noteq> []"
    and same: "\<forall>j \<in> set ivs. istart (hd ivs) = istart j"
    using Node.prems(2) by auto
  note b = bst_Node [OF Node.prems(2,3)]
  have dl: "distinct (map iid (all_intervals l))" and dr: "distinct (map iid (all_intervals r))"
    and di: "distinct (map iid ivs)"
    and d: "distinct (all_intervals l @ ivs @ all_intervals r)"
    using Node.prems(4) distinct_map [of iid "all_intervals (Node ivs h me l r)"] by auto
  have where_is: "\<And>j. j \<in> set (all_intervals (Node ivs h me l r)) \<Longrightarrow>
      (istart j < istart (hd ivs) \<and> j \<in> set (all_intervals l))
      \<or> (istart j = istart (hd ivs) \<and> j \<in> set ivs)
      \<or> (istart (hd ivs) < istart j \<and> j \<in> set (all_intervals r))"
    using b(3,4) same by (simp, metis)
  let ?k = "istart x" and ?i = "iid x"
  from where_is [OF Node.prems(5)]
  consider (L) "istart x < istart (hd ivs)" "x \<in> set (all_intervals l)"
    | (M) "istart x = istart (hd ivs)" "x \<in> set ivs"
    | (R) "istart (hd ivs) < istart x" "x \<in> set (all_intervals r)"
    by blast
  then show ?case
  proof cases
    case L
    have yl: "y \<in> set (all_intervals l)"
      using where_is [OF Node.prems(6)] L(1) Node.prems(8) by auto
    note IH = Node.IH(1) [OF al ul b(1) dl L(2) yl Node.prems(7,8)]
    note p = era_pre_left [OF Node.prems(1), of ?k ?i m]
    have e: "erase_node (Node ivs h me l r) ?k ?i m =
        (erase_rebalance (Node ivs h me (fst (erase_node l ?k ?i m)) r), snd (erase_node l ?k ?i m))"
      using L(1) by (simp add: case_prod_beta del: erase_rebalance.simps)
    show ?thesis unfolding e fst_conv snd_conv erase_rebalance_all [OF p]
      using IH L(2) by (simp add: remove1_append)
  next
    case M
    have ym: "y \<in> set ivs"
      using where_is [OF Node.prems(6)] M(1) Node.prems(8) by auto
    have "length ivs > 1"
    proof (cases ivs)
      case Nil
      then show ?thesis using ne by simp
    next
      case (Cons a as)
      then show ?thesis using M(2) ym Node.prems(7) by (cases as) auto
    qed
    moreover have "erase_by_id ivs ?i = Some (remove1 x ivs)"
      by (rule erase_by_id_distinct [OF M(2) di])
    ultimately have e: "erase_node (Node ivs h me l r) ?k ?i m =
        (erase_rebalance (Node (remove1 x ivs) h me l r), m(?i := None))"
      using M(1) by (simp del: erase_rebalance.simps)
    have xl: "x \<notin> set (all_intervals l)" using M(2) d by auto
    show ?thesis unfolding e fst_conv snd_conv
        erase_rebalance_all [OF era_pre_same [OF Node.prems(1)]]
      using xl M(2) by (simp add: remove1_append)
  next
    case R
    have yr: "y \<in> set (all_intervals r)"
      using where_is [OF Node.prems(6)] R(1) Node.prems(8) by auto
    note IH = Node.IH(2) [OF ar ur b(2) dr R(2) yr Node.prems(7,8)]
    note p = era_pre_right [OF Node.prems(1), of ?k ?i m]
    have nlt: "\<not> istart x < istart (hd ivs)" using R(1) by (simp add: not_less order.strict_implies_order)
    have e: "erase_node (Node ivs h me l r) ?k ?i m =
        (erase_rebalance (Node ivs h me l (fst (erase_node r ?k ?i m))), snd (erase_node r ?k ?i m))"
      using R(1) nlt by (simp add: case_prod_beta del: erase_rebalance.simps)
    have xl: "x \<notin> set (all_intervals l)" "x \<notin> set ivs" using R(2) d by auto
    show ?thesis unfolding e fst_conv snd_conv erase_rebalance_all [OF p]
      using IH xl by (simp add: remove1_append)
  qed
qed

text \<open>
  On a registry that satisfies the invariants of the data model (AVL
  balance, strictly ordered keys, nodes with non-empty vectors of one start,
  \<open>max_end\<close> an upper bound) and whose ids are distinct, let \<open>x\<close> be a stored
  interval that the side index knows under its start, and let another stored
  interval \<open>y\<close> share that start.  Then \<^verbatim>\<open>erase(id of x)\<close> removes \<open>x\<close> and nothing
  else (the in-order contents are the old ones without \<open>x\<close>), drops the
  side-index entry of \<open>x\<close>, and every other stored interval is still returned
  by the query at every point it contains.  Every registry built by inserts
  alone is of this kind (next section); a registry in which two nodes carry
  the same key is not.
\<close>

lemma erase_one_of_shared_key_wellformed:
  assumes "avl (root t)" "uniform (root t)" "bst (root t)" "upper (root t)"
    and "distinct (map iid (all_intervals (root t)))"
    and "x \<in> set (all_intervals (root t))"
    and "id_to_node t (iid x) = Some e" "istart e = istart x"
    and "y \<in> set (all_intervals (root t))" "y \<noteq> x" "istart y = istart x"
  shows "all_intervals (root (tree_erase (iid x) t)) = remove1 x (all_intervals (root t))
     \<and> id_to_node (tree_erase (iid x) t) = (id_to_node t)(iid x := None)
     \<and> (\<forall>j p. j \<in> set (all_intervals (root t)) \<and> j \<noteq> x \<and> istart j \<le> p \<and> p \<le> iend j
           \<longrightarrow> j \<in> set (tree_query (tree_erase (iid x) t) p))"
proof -
  let ?e = "erase_node (root t) (istart x) (iid x) (id_to_node t)"
  have te: "tree_erase (iid x) t = t\<lparr>root := fst ?e, id_to_node := snd ?e\<rparr>"
    using assms(7,8) by (simp add: tree_erase_def case_prod_beta)
  note m = erase_node_multi [OF assms(1-3,5,6,9-11), of "id_to_node t"]
  have ss: "sorted_starts (root t)" by (rule bst_sorted_starts [OF assms(2,3)])
  have inv: "uniform (fst ?e)" "sorted_starts (fst ?e)" "upper (fst ?e)"
    using erase_node_inv [OF assms(1,2) ss] upper_erase_node [OF assms(1,4)] by blast+
  have q: "\<forall>j p. j \<in> set (all_intervals (root t)) \<and> j \<noteq> x \<and> istart j \<le> p \<and> p \<le> iend j
           \<longrightarrow> j \<in> set (query_node (fst ?e) p)"
  proof (intro allI impI)
    fix j p
    assume a: "j \<in> set (all_intervals (root t)) \<and> j \<noteq> x \<and> istart j \<le> p \<and> p \<le> iend j"
    then have "j \<in> set (remove1 x (all_intervals (root t)))" by simp
    then have "j \<in> set (all_intervals (fst ?e))" using m by simp
    then show "j \<in> set (query_node (fst ?e) p)"
      using query_node_complete [OF inv] a by blast
  qed
  show ?thesis unfolding te tree_query_def using m q by simp
qed

text \<open>
  An instance: the registry with \<open>[20,30]\<close> (id 0) and \<open>[20,40]\<close> (id 1) in one
  node; after \<^verbatim>\<open>erase(0)\<close> the query at \<open>35\<close> still returns \<open>[20,40]\<close>.
\<close>

lemma erase_one_of_shared_key_example:
  "avl (root shared_key_registry) \<and> uniform (root shared_key_registry)
   \<and> bst (root shared_key_registry) \<and> upper (root shared_key_registry)
   \<and> distinct (map iid (all_intervals (root shared_key_registry)))
   \<and> \<lparr>istart = 20, iend = 30, ivalue = (), iid = 0\<rparr> \<in> set (all_intervals (root shared_key_registry))
   \<and> id_to_node shared_key_registry 0 = Some \<lparr>istart = 20, iend = 30, ivalue = (), iid = 0\<rparr>
   \<and> \<lparr>istart = 20, iend = 40, ivalue = (), iid = 1\<rparr> \<in> set (all_intervals (root shared_key_registry))
   \<and> all_intervals (root (tree_erase 0 shared_key_registry)) =
       remove1 \<lparr>istart = 20, iend = 30, ivalue = (), iid = 0\<rparr>
         (all_intervals (root shared_key_registry))
   \<and> \<lparr>istart = 20, iend = 40, ivalue = (), iid = 1\<rparr>
       \<in> set (tree_query (tree_erase 0 shared_key_registry) 35)"
proof -
  let ?x = "\<lparr>istart = 20, iend = 30, ivalue = (), iid = 0 :: size_t\<rparr>"
  let ?y = "\<lparr>istart = 20, iend = 40, ivalue = (), iid = 1 :: size_t\<rparr>"
  have h1: "avl (root shared_key_registry)" by code_simp
  have h2: "uniform (root shared_key_registry)" by code_simp
  have h3: "bst (root shared_key_registry)" by code_simp
  have h4: "upper (root shared_key_registry)" by code_simp
  have h5: "distinct (map iid (all_intervals (root shared_key_registry)))" by code_simp
  have h6: "?x \<in> set (all_intervals (root shared_key_registry))" by code_simp
  have h7: "id_to_node shared_key_registry (iid ?x) = Some ?x" by code_simp
  have h8: "istart ?x = istart ?x" by simp
  have h9: "?y \<in> set (all_intervals (root shared_key_registry))" by code_simp
  have h10: "?y \<noteq> ?x" by simp
  have h11: "istart ?y = istart ?x" by simp
  note c = erase_one_of_shared_key_wellformed [OF h1 h2 h3 h4 h5 h6 h7 h8 h9 h10 h11]
  have c1: "all_intervals (root (tree_erase 0 shared_key_registry)) =
       remove1 ?x (all_intervals (root shared_key_registry))"
    using c by simp
  have "?y \<in> set (all_intervals (root shared_key_registry)) \<and> ?y \<noteq> ?x
      \<and> istart ?y \<le> 35 \<and> 35 \<le> iend ?y"
    using h9 by simp
  then have c2: "?y \<in> set (tree_query (tree_erase 0 shared_key_registry) 35)"
    using c by (simp del: all_intervals_simps)
  show ?thesis using h1 h2 h3 h4 h5 h6 h7 h9 c1 c2 by simp
qed

text \<open>
  C7 (the code departs from the claim).  The claim: in every registry state
  in which several intervals share one start key, \<^verbatim>\<open>erase(id)\<close> for one of those
  ids removes only the interval with that id; every other interval stored at
  the same key is untouched and is still returned by queries at points it
  contains.  In the registry of C5 after \<^verbatim>\<open>erase(0)\<close> the key \<open>20\<close> is carried by
  two nodes.  After the insert of \<open>[20,50]\<close> (id 4) and \<^verbatim>\<open>erase(2)\<close> the root holds
  \<open>[20,50]\<close> alone and the right node holds \<open>[20,30]\<close> (id 2) and \<open>[20,40]\<close> (id 3);
  the side index maps the ids 3 and 4 to the key \<open>20\<close>, and the query at \<open>45\<close>
  returns \<open>[20,50]\<close>.  Then \<^verbatim>\<open>erase(3)\<close> stops at the root, which holds one interval
  and has two children: it overwrites \<open>[20,50]\<close> with the successor's front
  interval and removes id 3 from the successor.  The interval with id 4 is
  gone from the tree, the query at \<open>45\<close> returns nothing, and the side index
  still maps id 4.
\<close>

theorem C7_erase_overwrites_other_interval:
  "all_intervals (root (run reused_key_ops)) =
     [\<lparr>istart = 5, iend = 6, ivalue = (), iid = 1\<rparr>,
      \<lparr>istart = 20, iend = 50, ivalue = (), iid = 4\<rparr>,
      \<lparr>istart = 20, iend = 30, ivalue = (), iid = 2\<rparr>,
      \<lparr>istart = 20, iend = 40, ivalue = (), iid = 3\<rparr>]
   \<and> id_to_node (run reused_key_ops) 3 = Some \<lparr>istart = 20, iend = 40, ivalue = (), iid = 3\<rparr>
   \<and> id_to_node (run reused_key_ops) 4 = Some \<lparr>istart = 20, iend = 50, ivalue = (), iid = 4\<rparr>
   \<and> tree_query (run reused_key_ops) 45 = [\<lparr>istart = 20, iend = 50, ivalue = (), iid = 4\<rparr>]
   \<and> all_intervals (root (tree_erase 3 (run reused_key_ops))) =
     [\<lparr>istart = 5, iend = 6, ivalue = (), iid = 1\<rparr>,
      \<lparr>istart = 20, iend = 30, ivalue = (), iid = 2\<rparr>,
      \<lparr>istart = 20, iend = 30, ivalue = (), iid = 2\<rparr>]
   \<and> tree_query (tree_erase 3 (run reused_key_ops)) 45 = []
   \<and> id_to_node (tree_erase 3 (run reused_key_ops)) 4 =
       Some \<lparr>istart = 20, iend = 50, ivalue = (), iid = 4\<rparr>"
  by code_simp

section \<open>Registries built by inserts alone\<close>

lemma inserted_snoc:
  "list_all is_insert ops \<Longrightarrow>
     inserted n (ops @ [Insert s e v]) =
       inserted n ops @ [\<lparr>istart = s, iend = e, ivalue = v, iid = n + of_nat (length ops)\<rparr>]"
proof (induction ops arbitrary: n)
  case Nil
  then show ?case by simp
next
  case (Cons a ops)
  then obtain s' e' v' where a: "a = Insert s' e' v'" by (cases a) auto
  have "list_all is_insert ops" using Cons.prems by simp
  from Cons.IH [OF this, of "n + 1"] show ?case unfolding a by (simp add: algebra_simps)
qed

lemma ids_inserted:
  "list_all is_insert ops \<Longrightarrow> map iid (inserted n ops) = map (\<lambda>k. n + of_nat k) [0..<length ops]"
proof (induction ops rule: rev_induct)
  case Nil
  then show ?case by simp
next
  case (snoc a ops)
  then obtain s e v where a: "a = Insert s e v" by (cases a) auto
  have o: "list_all is_insert ops" using snoc.prems by simp
  show ?case unfolding a inserted_snoc [OF o] using snoc.IH [OF o] by simp
qed

lemma distinct_small_words:
  assumes "n \<le> 2 ^ 64"
  shows "distinct (map (\<lambda>k. (of_nat k :: 64 word)) [0..<n])"
proof -
  have "inj_on (\<lambda>k. (of_nat k :: 64 word)) (set [0..<n])"
  proof (rule inj_onI)
    fix x y assume x: "x \<in> set [0..<n]" and y: "y \<in> set [0..<n]"
      and e: "(of_nat x :: 64 word) = of_nat y"
    have "x < n" "y < n" using x y by simp_all
    then have b: "x < 2 ^ LENGTH(64)" "y < 2 ^ LENGTH(64)" using assms by simp_all
    have "unat (of_nat x :: 64 word) = x" "unat (of_nat y :: 64 word) = y"
      using b by (auto intro: of_nat_inverse)
    then show "x = y" using e by metis
  qed
  then show ?thesis by (simp add: distinct_map)
qed

lemma insert_only_contents:
  "list_all is_insert ops \<Longrightarrow>
     mset (all_intervals (root (run ops))) = mset (inserted 0 ops)
     \<and> next_id (run ops) = of_nat (length ops)"
proof (induction ops rule: rev_induct)
  case Nil
  then show ?case by (simp add: run_Nil new_tree_def)
next
  case (snoc a ops)
  then obtain s e v where a: "a = Insert s e v" by (cases a) auto
  have o: "list_all is_insert ops" using snoc.prems by simp
  note IH = snoc.IH [OF o]
  let ?i = "\<lparr>istart = s, iend = e, ivalue = v, iid = next_id (run ops)\<rparr>"
  have inv: "avl (root (run ops))" "uniform (root (run ops))" "sorted_starts (root (run ops))"
    using tree_inv_run [of ops] by (simp_all add: tree_inv_def)
  from insert_node_content [OF inv, of ?i] obtain xs ys where
    d: "all_intervals (root (run ops)) = xs @ ys"
       "all_intervals (insert_node (root (run ops)) ?i) = xs @ ?i # ys"
    by blast
  have r: "root (run (ops @ [a])) = insert_node (root (run ops)) ?i"
    unfolding a run_snoc by (simp add: root_tree_insert)
  have n: "next_id (run (ops @ [a])) = next_id (run ops) + 1"
    unfolding a run_snoc by (simp add: tree_insert_def Let_def)
  have c1: "mset (all_intervals (root (run (ops @ [a])))) =
      add_mset ?i (mset (all_intervals (root (run ops))))"
    unfolding r d by simp
  have c2: "inserted 0 (ops @ [a]) = inserted 0 ops @ [?i]"
    unfolding a inserted_snoc [OF o] using IH by simp
  have c3: "next_id (run (ops @ [a])) = of_nat (length (ops @ [a]))"
    unfolding n using IH by simp
  show ?case unfolding c1 c2 using IH c3 by simp
qed

text \<open>
  After inserts alone a query returns exactly the inserted intervals that
  contain the point, each once.
\<close>

theorem insert_only_query_exact:
  assumes "list_all is_insert ops"
  shows "mset (tree_query (run ops) p) =
           filter_mset (\<lambda>j. istart j \<le> p \<and> p \<le> iend j) (mset (inserted 0 ops))"
  unfolding query_stored_exact_mset using insert_only_contents [OF assms] by simp

lemma keys_insert_rebalance:
  "ins_pre l r i \<Longrightarrow>
     keys (insert_rebalance (Node ivs h me l r) i) = keys l @ istart (hd ivs) # keys r"
  unfolding keys_def node_lists_insert_rebalance by simp

lemma sorted_wrt_ins_left:
  fixes c :: "'a::linorder"
  assumes "sorted_wrt (<) (xs @ c # ys)" "sorted_wrt (<) xs'" "set xs' = insert a (set xs)" "a < c"
  shows "sorted_wrt (<) (xs' @ c # ys)"
proof -
  have 1: "\<forall>x \<in> set xs. x < c" "\<forall>y \<in> set ys. c < y" "sorted_wrt (<) ys"
    using assms(1) by (auto simp: sorted_wrt_append)
  have 2: "\<forall>x \<in> set xs'. x < c" using 1(1) assms(3,4) by auto
  have 3: "\<forall>x \<in> set xs'. \<forall>y \<in> set ys. x < y"
  proof (intro ballI)
    fix x y assume "x \<in> set xs'" "y \<in> set ys"
    then have "x < c" "c < y" using 2 1(2) by auto
    then show "x < y" by (rule order.strict_trans)
  qed
  show ?thesis using assms(2) 1(2,3) 2 3 by (simp add: sorted_wrt_append)
qed

lemma sorted_wrt_ins_right:
  fixes c :: "'a::linorder"
  assumes "sorted_wrt (<) (xs @ c # ys)" "sorted_wrt (<) ys'" "set ys' = insert a (set ys)" "c < a"
  shows "sorted_wrt (<) (xs @ c # ys')"
proof -
  have 1: "\<forall>x \<in> set xs. x < c" "\<forall>y \<in> set ys. c < y" "sorted_wrt (<) xs"
    using assms(1) by (auto simp: sorted_wrt_append)
  have 2: "\<forall>y \<in> set ys'. c < y" using 1(2) assms(3,4) by auto
  have 3: "\<forall>x \<in> set xs. \<forall>y \<in> set ys'. x < y"
  proof (intro ballI)
    fix x y assume "x \<in> set xs" "y \<in> set ys'"
    then have "x < c" "c < y" using 2 1(1) by auto
    then show "x < y" by (rule order.strict_trans)
  qed
  show ?thesis using assms(2) 1(1,3) 2 3 by (simp add: sorted_wrt_append)
qed

lemma bst_insert_node:
  "avl t \<Longrightarrow> uniform t \<Longrightarrow> bst t \<Longrightarrow>
     bst (insert_node t i) \<and> set (keys (insert_node t i)) = insert (istart i) (set (keys t))"
proof (induction t)
  case Null
  then show ?case by (simp add: bst_def)
next
  case (Node ivs h me l r)
  have al: "avl l" and ar: "avl r" using Node.prems(1) by auto
  have ul: "uniform l" and ur: "uniform r" and ne: "ivs \<noteq> []"
    using Node.prems(2) by auto
  have s: "sorted_wrt (<) (keys l @ istart (hd ivs) # keys r)"
    using Node.prems(3) by (simp add: bst_def)
  then have bl: "bst l" and br: "bst r"
    by (simp_all add: bst_def sorted_wrt_append)
  consider (lt) "istart i < istart (hd ivs)"
    | (gt) "\<not> istart i < istart (hd ivs)" "istart i > istart (hd ivs)"
    | (eq) "\<not> istart i < istart (hd ivs)" "\<not> istart i > istart (hd ivs)"
    by blast
  then show ?case
  proof cases
    case lt
    have IH: "sorted_wrt (<) (keys (insert_node l i))"
      "set (keys (insert_node l i)) = insert (istart i) (set (keys l))"
      using Node.IH(1) [OF al ul bl] by (simp_all add: bst_def)
    have t': "insert_node (Node ivs h me l r) i =
        insert_rebalance (Node ivs h me (insert_node l i) r) i"
      using lt by simp
    have k: "keys (insert_node (Node ivs h me l r) i) =
        keys (insert_node l i) @ istart (hd ivs) # keys r"
      unfolding t' by (rule keys_insert_rebalance [OF ins_pre_left [OF Node.prems(1)]])
    have 1: "sorted_wrt (<) (keys (insert_node l i) @ istart (hd ivs) # keys r)"
      by (rule sorted_wrt_ins_left [OF s IH lt])
    have 2: "set (keys (insert_node l i) @ istart (hd ivs) # keys r) =
        insert (istart i) (set (keys (Node ivs h me l r)))"
      unfolding set_append IH(2) by auto
    show ?thesis unfolding k bst_def using 1 2 by blast
  next
    case gt
    have IH: "sorted_wrt (<) (keys (insert_node r i))"
      "set (keys (insert_node r i)) = insert (istart i) (set (keys r))"
      using Node.IH(2) [OF ar ur br] by (simp_all add: bst_def)
    have t': "insert_node (Node ivs h me l r) i =
        insert_rebalance (Node ivs h me l (insert_node r i)) i"
      using gt by simp
    have k: "keys (insert_node (Node ivs h me l r) i) =
        keys l @ istart (hd ivs) # keys (insert_node r i)"
      unfolding t' by (rule keys_insert_rebalance [OF ins_pre_right [OF Node.prems(1)]])
    have 1: "sorted_wrt (<) (keys l @ istart (hd ivs) # keys (insert_node r i))"
      by (rule sorted_wrt_ins_right [OF s IH gt(2)])
    have 2: "set (keys l @ istart (hd ivs) # keys (insert_node r i)) =
        insert (istart i) (set (keys (Node ivs h me l r)))"
      unfolding set_append list.set IH(2) by auto
    show ?thesis unfolding k bst_def using 1 2 by blast
  next
    case eq
    then have e: "istart i = istart (hd ivs)" by auto
    have t': "insert_node (Node ivs h me l r) i = insert_rebalance (Node (ivs @ [i]) h me l r) i"
      using eq by simp
    have hd': "hd (ivs @ [i]) = hd ivs" using ne by simp
    have k: "keys (insert_node (Node ivs h me l r) i) = keys l @ istart (hd ivs) # keys r"
      unfolding t' keys_insert_rebalance [OF ins_pre_same [OF Node.prems(1)]] hd' ..
    have 2: "set (keys l @ istart (hd ivs) # keys r) =
        insert (istart i) (set (keys (Node ivs h me l r)))"
      unfolding e by auto
    show ?thesis unfolding k bst_def using s 2 by blast
  qed
qed

lemma insert_only_bst: "list_all is_insert ops \<Longrightarrow> bst (root (run ops))"
proof (induction ops rule: rev_induct)
  case Nil
  then show ?case by (simp add: run_Nil new_tree_def bst_def)
next
  case (snoc a ops)
  then obtain s e v where a: "a = Insert s e v" by (cases a) auto
  have o: "list_all is_insert ops" using snoc.prems by simp
  have inv: "avl (root (run ops))" "uniform (root (run ops))"
    using tree_inv_run [of ops] by (simp_all add: tree_inv_def)
  show ?case unfolding a run_snoc apply_op.simps root_tree_insert
    using bst_insert_node [OF inv snoc.IH [OF o]] by blast
qed

lemma insert_only_distinct_ids:
  assumes "list_all is_insert ops" "length ops \<le> 2 ^ 64"
  shows "distinct (map iid (all_intervals (root (run ops))))"
proof -
  have "mset (map iid (all_intervals (root (run ops)))) = mset (map iid (inserted 0 ops))"
    using insert_only_contents [OF assms(1)] by (metis mset_map)
  moreover have "distinct (map iid (inserted 0 ops))"
    unfolding ids_inserted [OF assms(1)] using distinct_small_words [OF assms(2)] by simp
  ultimately show ?thesis by (metis mset_eq_imp_distinct_iff)
qed

lemma insert_only_side_index:
  assumes "list_all is_insert ops" "length ops \<le> 2 ^ 64"
  shows "\<forall>x \<in> set (all_intervals (root (run ops))). id_to_node (run ops) (iid x) = Some x"
  using assms
proof (induction ops rule: rev_induct)
  case Nil
  then show ?case by (simp add: run_Nil new_tree_def)
next
  case (snoc a ops)
  then obtain s e v where a: "a = Insert s e v" by (cases a) auto
  have o: "list_all is_insert ops" "length ops \<le> 2 ^ 64"
    and o': "list_all is_insert (ops @ [a])"
    using snoc.prems by simp_all
  note IH = snoc.IH [OF o]
  let ?i = "\<lparr>istart = s, iend = e, ivalue = v, iid = next_id (run ops)\<rparr>"
  have inv: "avl (root (run ops))" "uniform (root (run ops))" "sorted_starts (root (run ops))"
    using tree_inv_run [of ops] by (simp_all add: tree_inv_def)
  have r: "root (run (ops @ [a])) = insert_node (root (run ops)) ?i"
    unfolding a run_snoc by (simp add: root_tree_insert)
  have m: "id_to_node (run (ops @ [a])) = (id_to_node (run ops))(next_id (run ops) \<mapsto> ?i)"
    unfolding a run_snoc by (simp add: tree_insert_def Let_def)
  have st: "set (all_intervals (root (run (ops @ [a])))) =
      insert ?i (set (all_intervals (root (run ops))))"
    unfolding r by (rule sorted_insert_node(2) [OF inv])
  from insert_node_content [OF inv, of ?i] obtain xs ys where
    d: "all_intervals (root (run ops)) = xs @ ys"
       "all_intervals (insert_node (root (run ops)) ?i) = xs @ ?i # ys"
    by blast
  have "distinct (map iid (xs @ ?i # ys))"
    using insert_only_distinct_ids [OF o' snoc.prems(2)] unfolding r d(2) .
  then have fresh: "\<forall>x \<in> set (all_intervals (root (run ops))). iid x \<noteq> next_id (run ops)"
    unfolding d(1) by (auto simp: image_iff)
  show ?case unfolding st m
  proof
    fix x assume "x \<in> insert ?i (set (all_intervals (root (run ops))))"
    then consider "x = ?i" | "x \<in> set (all_intervals (root (run ops)))" by blast
    then show "((id_to_node (run ops))(next_id (run ops) \<mapsto> ?i)) (iid x) = Some x"
    proof cases
      case 1
      then show ?thesis by simp
    next
      case 2
      then have "iid x \<noteq> next_id (run ops)" "id_to_node (run ops) (iid x) = Some x"
        using fresh IH by blast+
      then show ?thesis by simp
    qed
  qed
qed

text \<open>
  After fewer than \<open>2^64\<close> inserts (the id counter has not wrapped) the registry
  satisfies every invariant of the data model, its ids are distinct and the
  side index maps the id of every stored interval to it.
\<close>

theorem insert_only_wellformed:
  assumes "list_all is_insert ops" "length ops \<le> 2 ^ 64"
  shows "avl (root (run ops)) \<and> uniform (root (run ops)) \<and> bst (root (run ops))
     \<and> upper (root (run ops))
     \<and> distinct (map iid (all_intervals (root (run ops))))
     \<and> (\<forall>x \<in> set (all_intervals (root (run ops))). id_to_node (run ops) (iid x) = Some x)"
  using tree_inv_run [of ops] insert_only_bst [OF assms(1)] insert_only_distinct_ids [OF assms]
    insert_only_side_index [OF assms]
  unfolding tree_inv_def by blast

section \<open>The exception handler\<close>

lemma protect_memory_loop_done:
  "\<not> start < end_addr \<Longrightarrow> protect_memory_loop api pm sz start end_addr w = Some (Inr (), w)"
  by (subst protect_memory_loop.simps) simp

lemma protect_memory_one_stride:
  assumes "a < a + sz"
    and "VirtualQuery api w a = Some mbi"
    and "\<not> a + RegionSize mbi < a + sz"
    and "Protect mbi \<noteq> pm (Protect mbi)"
    and "VirtualProtect api w (BaseAddress mbi) (min sz (RegionSize mbi)) (pm (Protect mbi)) = Some w'"
  shows "protect_memory api a sz pm w = Some (Inr (), w')"
  unfolding protect_memory_def
  apply (subst protect_memory_loop.simps)
  using assms by (simp add: Let_def protect_memory_loop_done)

lemma protect_memory_one_stride_unchanged:
  assumes "a < a + sz"
    and "VirtualQuery api w a = Some mbi"
    and "\<not> a + RegionSize mbi < a + sz"
    and "Protect mbi = pm (Protect mbi)"
  shows "protect_memory api a sz pm w = Some (Inr (), w)"
  unfolding protect_memory_def
  apply (subst protect_memory_loop.simps)
  using assms by (simp add: Let_def protect_memory_loop_done)

lemma protect_memory_query_fails:
  assumes "a < a + sz" and "VirtualQuery api w a = None"
  shows "protect_memory api a sz pm w = Some (Inl Failed_to_query_memory, w)"
  unfolding protect_memory_def
  apply (subst protect_memory_loop.simps)
  using assms by simp

lemma protect_memory_protect_fails:
  assumes "a < a + sz"
    and "VirtualQuery api w a = Some mbi"
    and "Protect mbi \<noteq> pm (Protect mbi)"
    and "VirtualProtect api w (BaseAddress mbi) (min sz (RegionSize mbi)) (pm (Protect mbi)) = None"
  shows "protect_memory api a sz pm w = Some (Inl Failed_to_protect_memory, w)"
  unfolding protect_memory_def
  apply (subst protect_memory_loop.simps)
  using assms by (simp add: Let_def)

lemma protect_memory_one_stride_cases:
  assumes "protect_memory api a sz pm w = Some (Inr (), w')"
    and "VirtualQuery api w a = Some mbi"
    and "a < a + sz"
    and "\<not> a + RegionSize mbi < a + sz"
  shows "Protect mbi = pm (Protect mbi) \<and> w' = w
       \<or> Protect mbi \<noteq> pm (Protect mbi)
         \<and> VirtualProtect api w (BaseAddress mbi) (min sz (RegionSize mbi)) (pm (Protect mbi))
             = Some w'"
proof (cases "Protect mbi = pm (Protect mbi)")
  case True
  have "protect_memory api a sz pm w = Some (Inr (), w)"
    using protect_memory_one_stride_unchanged [where a = a and sz = sz and api = api and w = w
        and mbi = mbi and pm = pm] assms(2-4) True by simp
  with assms(1) show ?thesis using True by simp
next
  case False
  show ?thesis
  proof (cases "VirtualProtect api w (BaseAddress mbi) (min sz (RegionSize mbi)) (pm (Protect mbi))")
    case None
    have "protect_memory api a sz pm w = Some (Inl Failed_to_protect_memory, w)"
      using protect_memory_protect_fails [where a = a and sz = sz and api = api and w = w
          and mbi = mbi and pm = pm] assms(2,3) False None by simp
    with assms(1) show ?thesis by simp
  next
    case (Some w'')
    have "protect_memory api a sz pm w = Some (Inr (), w'')"
      using protect_memory_one_stride [where a = a and sz = sz and api = api and w = w
          and mbi = mbi and pm = pm and w' = w''] assms(2-4) False Some by simp
    with assms(1) show ?thesis using False Some by simp
  qed
qed

lemma guard_one_region:
  "protect_memory one_region_os 0x10000 4 (\<lambda>protect. protect OR PAGE_GUARD) (4 :: DWORD) =
     Some (Inr (), 0x104)"
  by (rule protect_memory_one_stride
        [where mbi = "\<lparr>BaseAddress = 0x10000, RegionSize = 0x1000, Protect = 4\<rparr>"])
     (simp_all add: one_region_os_def PAGE_GUARD_def)

lemma unguard_one_region:
  "protect_memory one_region_os 0x10000 4 (\<lambda>protect. protect AND NOT PAGE_GUARD) (4 :: DWORD) =
     Some (Inr (), 4)"
  by (rule protect_memory_one_stride_unchanged
        [where mbi = "\<lparr>BaseAddress = 0x10000, RegionSize = 0x1000, Protect = 4\<rparr>"])
     (simp_all add: one_region_os_def PAGE_GUARD_def)

lemma handler_guard_fault:
  assumes "\<not> tree_empty (interval_tree g)" "ExceptionCode ep = STATUS_GUARD_PAGE_VIOLATION"
  shows "handler api tid ep g =
           Some (Inr EXCEPTION_CONTINUE_EXECUTION, ep\<lparr>EFlags := EFlags ep OR 0x100\<rparr>,
                 g\<lparr>last_data_address := (last_data_address g)(tid := ExceptionInformation1 ep)\<rparr>,
                 map (\<lambda>i. (ivalue i, XIP ep, ExceptionInformation0 ep = 0, ExceptionInformation1 ep))
                   (tree_query (interval_tree g) (ExceptionInformation1 ep)))"
  using assms by (simp add: handler_def Let_def)

lemma status_codes_differ: "STATUS_SINGLE_STEP \<noteq> STATUS_GUARD_PAGE_VIOLATION"
  by (simp add: STATUS_SINGLE_STEP_def STATUS_GUARD_PAGE_VIOLATION_def)

lemma handler_single_step:
  assumes "\<not> tree_empty (interval_tree g)" "ExceptionCode ep = STATUS_SINGLE_STEP"
    and "last_data_address g tid \<noteq> 0"
    and "protect_memory api (last_data_address g tid) 1 (\<lambda>protect. protect OR PAGE_GUARD) (os g)
           = Some (Inr (), w')"
  shows "handler api tid ep g =
           Some (Inr EXCEPTION_CONTINUE_EXECUTION, ep,
                 g\<lparr>os := w', last_data_address := (last_data_address g)(tid := 0)\<rparr>, [])"
  using assms status_codes_differ by (simp add: handler_def)

text \<open>
  C9.  A fault that is neither a guard-page violation nor a single step of a
  thread with a recorded address is declined: the handler returns
  \<^verbatim>\<open>EXCEPTION_CONTINUE_SEARCH\<close>, calls no interceptor, and leaves the exception
  record, the registry, the recorded addresses and the state of the
  operating system as they were.
\<close>

theorem C9_unrecognised_fault_declined:
  assumes "ExceptionCode ep \<noteq> STATUS_GUARD_PAGE_VIOLATION"
    and "\<not> (last_data_address g tid \<noteq> 0 \<and> ExceptionCode ep = STATUS_SINGLE_STEP)"
  shows "handler api tid ep g = Some (Inr EXCEPTION_CONTINUE_SEARCH, ep, g, [])"
  using assms by (auto simp: handler_def)

text \<open>
  Witness of C9: an access violation while thread \<open>0\<close> has the address
  \<open>0x1000\<close> recorded.
\<close>

theorem C9_witness:
  "ExceptionCode access_violation \<noteq> STATUS_GUARD_PAGE_VIOLATION
   \<and> \<not> (last_data_address (watching [Insert 0x1000 0x1003 ()] 0 0x1000) 0 \<noteq> 0
         \<and> ExceptionCode access_violation = STATUS_SINGLE_STEP)
   \<and> handler one_region_os 0 access_violation (watching [Insert 0x1000 0x1003 ()] 0 0x1000)
       = Some (Inr EXCEPTION_CONTINUE_SEARCH, access_violation,
               watching [Insert 0x1000 0x1003 ()] 0 0x1000, [])"
proof -
  have h1: "ExceptionCode access_violation \<noteq> STATUS_GUARD_PAGE_VIOLATION"
    by (simp add: access_violation_def STATUS_GUARD_PAGE_VIOLATION_def)
  have h2: "\<not> (last_data_address (watching [Insert 0x1000 0x1003 ()] 0 0x1000) 0 \<noteq> 0
         \<and> ExceptionCode access_violation = STATUS_SINGLE_STEP)"
    by (simp add: access_violation_def STATUS_SINGLE_STEP_def)
  show ?thesis
    using h1 h2 C9_unrecognised_fault_declined [OF h1 h2, of one_region_os] by simp
qed

lemma handler_empty_registry:
  "tree_empty (interval_tree g) \<Longrightarrow>
     handler api tid ep g = Some (Inr EXCEPTION_CONTINUE_SEARCH, ep, g, [])"
  by (simp add: handler_def)

text \<open>
  C8 as stated fails, in two ways.  The handler returns
  \<^verbatim>\<open>EXCEPTION_CONTINUE_SEARCH\<close> for every fault while the registry is empty,
  before it looks at the recorded address.  A run from program start: a
  session is created on the four bytes at \<open>0x10000\<close>, which sets the guard bit
  of the region (protection \<open>0x104\<close>); an access faults and the system clears
  the guard bit (protection \<open>4\<close>); the handler calls the interceptor, sets the
  single-step flag and records the address for thread \<open>0\<close>; the session is
  destroyed before the thread's single-step trap is handled, which empties
  the registry; the trap is then declined and the address stays recorded.
  And when the session is still registered but \<^verbatim>\<open>VirtualQuery\<close> fails at the
  trap, \<^verbatim>\<open>protect_memory\<close> throws "Failed to query memory.": the handler returns
  no disposition and the address stays recorded (the last three conjuncts).
\<close>

theorem C8_counterexample:
  "Datamon_ctor one_region_os 0x10000 4 () (new_process 4) =
     Some (Inr \<lparr>dm_address = 0x10000, dm_size = 4, dm_interceptor = (),
                dm_interceptor_entry_id = 0\<rparr>,
           (watching [Insert 0x10000 0x10004 ()] 0 0)\<lparr>os := 0x104\<rparr>)
   \<and> handler one_region_os 0 (guard_fault_at 0x10000) (watching [Insert 0x10000 0x10004 ()] 0 0) =
     Some (Inr EXCEPTION_CONTINUE_EXECUTION, (guard_fault_at 0x10000)\<lparr>EFlags := 0x302\<rparr>,
           watching [Insert 0x10000 0x10004 ()] 0 0x10000,
           [((), 0x401000, False, 0x10000)])
   \<and> Datamon_dtor one_region_os
         \<lparr>dm_address = 0x10000, dm_size = 4, dm_interceptor = (), dm_interceptor_entry_id = 0\<rparr>
         (watching [Insert 0x10000 0x10004 ()] 0 0x10000) =
     Some (Inr (), armed_after_destroy)
   \<and> last_data_address armed_after_destroy 0 = 0x10000
   \<and> ExceptionCode single_step_trap = STATUS_SINGLE_STEP
   \<and> handler one_region_os 0 single_step_trap armed_after_destroy =
     Some (Inr EXCEPTION_CONTINUE_SEARCH, single_step_trap, armed_after_destroy, [])
   \<and> \<not> tree_empty (interval_tree (watching [Insert 0x10000 0x10004 ()] 0 0x10000))
   \<and> last_data_address (watching [Insert 0x10000 0x10004 ()] 0 0x10000) 0 = 0x10000
   \<and> handler unqueryable_os 0 single_step_trap (watching [Insert 0x10000 0x10004 ()] 0 0x10000) =
     Some (Inl Failed_to_query_memory, single_step_trap,
           watching [Insert 0x10000 0x10004 ()] 0 0x10000, [])"
proof -
  have t1: "run [Insert 0x10000 0x10004 ()] =
      \<lparr>root = Node [\<lparr>istart = 0x10000, iend = 0x10004, ivalue = (), iid = 0\<rparr>] 1 0x10004 Null Null,
       next_id = 1,
       id_to_node = [0 \<mapsto> \<lparr>istart = 0x10000, iend = 0x10004, ivalue = (), iid = 0\<rparr>]\<rparr>"
    by (simp add: run_def new_tree_def tree_insert_def Let_def)
  have t2: "run [Insert 0x10000 0x10004 (), Erase 0] = tree_erase 0 (run [Insert 0x10000 0x10004 ()])"
    by (simp add: run_def)
  have e: "tree_empty (run [Insert 0x10000 0x10004 (), Erase 0])"
    unfolding t2 t1 by (simp add: tree_erase_def tree_empty_def)
  have c: "Datamon_ctor one_region_os 0x10000 4 () (new_process 4) =
     Some (Inr \<lparr>dm_address = 0x10000, dm_size = 4, dm_interceptor = (),
                dm_interceptor_entry_id = 0\<rparr>,
           (watching [Insert 0x10000 0x10004 ()] 0 0)\<lparr>os := 0x104\<rparr>)"
    using guard_one_region
    by (simp add: Datamon_ctor_def new_process_def one_region_os_def Let_def watching_def
        run_def tree_insert_def new_tree_def)
  have h: "handler one_region_os 0 (guard_fault_at 0x10000) (watching [Insert 0x10000 0x10004 ()] 0 0) =
     Some (Inr EXCEPTION_CONTINUE_EXECUTION, (guard_fault_at 0x10000)\<lparr>EFlags := 0x302\<rparr>,
           watching [Insert 0x10000 0x10004 ()] 0 0x10000,
           [((), 0x401000, False, 0x10000)])"
    unfolding watching_def t1
    by (simp add: handler_def tree_empty_def tree_query_def guard_fault_at_def
        STATUS_GUARD_PAGE_VIOLATION_def Let_def fun_eq_iff)
  have d: "Datamon_dtor one_region_os
         \<lparr>dm_address = 0x10000, dm_size = 4, dm_interceptor = (), dm_interceptor_entry_id = 0\<rparr>
         (watching [Insert 0x10000 0x10004 ()] 0 0x10000) =
     Some (Inr (), armed_after_destroy)"
    using unguard_one_region
    by (simp add: Datamon_dtor_def watching_def armed_after_destroy_def Let_def t2
        one_region_os_def fun_eq_iff)
  have s: "handler one_region_os 0 single_step_trap armed_after_destroy =
     Some (Inr EXCEPTION_CONTINUE_SEARCH, single_step_trap, armed_after_destroy, [])"
    using e by (simp add: handler_def armed_after_destroy_def)
  have l: "last_data_address armed_after_destroy 0 = 0x10000"
    by (simp add: armed_after_destroy_def)
  have k: "ExceptionCode single_step_trap = STATUS_SINGLE_STEP"
    by (simp add: single_step_trap_def STATUS_SINGLE_STEP_def)
  have n: "\<not> tree_empty (interval_tree (watching [Insert 0x10000 0x10004 ()] 0 0x10000))"
    unfolding watching_def t1 by (simp add: tree_empty_def)
  have l2: "last_data_address (watching [Insert 0x10000 0x10004 ()] 0 0x10000) 0 = 0x10000"
    by (simp add: watching_def)
  have f: "protect_memory unqueryable_os 0x10000 1 (\<lambda>protect. protect OR PAGE_GUARD) (4 :: DWORD) =
      Some (Inl Failed_to_query_memory, 4)"
    by (rule protect_memory_query_fails) (simp_all add: unqueryable_os_def)
  have u: "handler unqueryable_os 0 single_step_trap (watching [Insert 0x10000 0x10004 ()] 0 0x10000) =
     Some (Inl Failed_to_query_memory, single_step_trap,
           watching [Insert 0x10000 0x10004 ()] 0 0x10000, [])"
    using n f k status_codes_differ by (simp add: handler_def watching_def)
  show ?thesis using c h d l k s n l2 u by blast
qed

text \<open>
  C8, amended.  For a thread with a recorded address, when the registry is
  not empty and the handler's call
  \<^verbatim>\<open>protect_memory(last_data_address, 1, protect | PAGE_GUARD)\<close> returns
  normally, leaving the operating system in the state \<open>w'\<close>, the single-step
  trap is consumed: the handler returns \<^verbatim>\<open>EXCEPTION_CONTINUE_EXECUTION\<close>, calls no
  interceptor, leaves the exception record as it is, clears the recorded
  address, and the operating system is in the state \<open>w'\<close>.  What that call
  did, when the recorded address is not the last address of the address
  space and the region that \<^verbatim>\<open>VirtualQuery\<close> reports for it ends the loop after
  one stride: either the region had the guard bit already and nothing was
  changed, or \<open>w'\<close> is the state after \<^verbatim>\<open>VirtualProtect\<close> on the base address of
  the region (size \<open>min(1, RegionSize)\<close>) with the guard bit added to the
  region's protection.
\<close>

theorem C8_single_step_when_armed:
  assumes "last_data_address g tid \<noteq> 0"
    and "ExceptionCode ep = STATUS_SINGLE_STEP"
    and "\<not> tree_empty (interval_tree g)"
    and "protect_memory api (last_data_address g tid) 1 (\<lambda>protect. protect OR PAGE_GUARD) (os g)
           = Some (Inr (), w')"
  shows "handler api tid ep g =
           Some (Inr EXCEPTION_CONTINUE_EXECUTION, ep,
                 g\<lparr>os := w', last_data_address := (last_data_address g)(tid := 0)\<rparr>, [])
     \<and> (\<forall>mbi. VirtualQuery api (os g) (last_data_address g tid) = Some mbi
            \<and> last_data_address g tid < last_data_address g tid + 1
            \<and> \<not> last_data_address g tid + RegionSize mbi < last_data_address g tid + 1
          \<longrightarrow> Protect mbi = Protect mbi OR PAGE_GUARD \<and> w' = os g
              \<or> Protect mbi \<noteq> Protect mbi OR PAGE_GUARD
                \<and> VirtualProtect api (os g) (BaseAddress mbi) (min 1 (RegionSize mbi))
                     (Protect mbi OR PAGE_GUARD) = Some w')"
proof -
  have 1: "handler api tid ep g =
           Some (Inr EXCEPTION_CONTINUE_EXECUTION, ep,
                 g\<lparr>os := w', last_data_address := (last_data_address g)(tid := 0)\<rparr>, [])"
    using assms(4) by (rule handler_single_step [OF assms(3,2,1)])
  have 2: "Protect mbi = Protect mbi OR PAGE_GUARD \<and> w' = os g
              \<or> Protect mbi \<noteq> Protect mbi OR PAGE_GUARD
                \<and> VirtualProtect api (os g) (BaseAddress mbi) (min 1 (RegionSize mbi))
                     (Protect mbi OR PAGE_GUARD) = Some w'"
    if "VirtualQuery api (os g) (last_data_address g tid) = Some mbi"
      and "last_data_address g tid < last_data_address g tid + 1"
      and "\<not> last_data_address g tid + RegionSize mbi < last_data_address g tid + 1"
    for mbi
    using protect_memory_one_stride_cases [where pm = "\<lambda>protect. protect OR PAGE_GUARD"
        and sz = 1 and a = "last_data_address g tid" and api = api and w = "os g" and mbi = mbi
        and w' = w'] assms(4) that by simp
  show ?thesis using 1 2 by blast
qed

text \<open>
  Witness of C8: thread \<open>0\<close> has recorded \<open>0x10000\<close>, the registry watches
  \<open>[0x10000, 0x10003]\<close>, the region has protection \<open>4\<close>; afterwards it has
  \<open>0x104\<close>, set by \<^verbatim>\<open>VirtualProtect\<close> at the region's base \<open>0x10000\<close>.
\<close>

theorem C8_witness:
  "last_data_address (watching [Insert 0x10000 0x10003 ()] 0 0x10000) 0 \<noteq> 0
   \<and> ExceptionCode single_step_trap = STATUS_SINGLE_STEP
   \<and> \<not> tree_empty (interval_tree (watching [Insert 0x10000 0x10003 ()] 0 0x10000))
   \<and> protect_memory one_region_os 0x10000 1 (\<lambda>protect. protect OR PAGE_GUARD) (4 :: DWORD) =
       Some (Inr (), 0x104)
   \<and> handler one_region_os 0 single_step_trap (watching [Insert 0x10000 0x10003 ()] 0 0x10000)
       = Some (Inr EXCEPTION_CONTINUE_EXECUTION, single_step_trap,
               (watching [Insert 0x10000 0x10003 ()] 0 0x10000)
                 \<lparr>os := 0x104,
                  last_data_address :=
                    (last_data_address (watching [Insert 0x10000 0x10003 ()] 0 0x10000))(0 := 0)\<rparr>,
               [])
   \<and> VirtualProtect one_region_os 4 0x10000 1 0x104 = Some 0x104"
proof -
  let ?g = "watching [Insert 0x10000 0x10003 ()] 0 0x10000"
  let ?mbi = "\<lparr>BaseAddress = 0x10000, RegionSize = 0x1000, Protect = 4\<rparr>"
  have a: "last_data_address ?g 0 = 0x10000" "os ?g = 4" by (simp_all add: watching_def)
  have h1: "last_data_address ?g 0 \<noteq> 0" unfolding a by simp
  have h2: "ExceptionCode single_step_trap = STATUS_SINGLE_STEP"
    by (simp add: single_step_trap_def STATUS_SINGLE_STEP_def)
  have h3: "\<not> tree_empty (interval_tree ?g)"
    by (simp add: watching_def tree_empty_def run_def new_tree_def tree_insert_def Let_def)
  have p: "protect_memory one_region_os 0x10000 1 (\<lambda>protect. protect OR PAGE_GUARD) (4 :: DWORD) =
       Some (Inr (), 0x104)"
    by (rule protect_memory_one_stride [where mbi = ?mbi])
       (simp_all add: one_region_os_def PAGE_GUARD_def)
  have h4: "protect_memory one_region_os (last_data_address ?g 0) 1
      (\<lambda>protect. protect OR PAGE_GUARD) (os ?g) = Some (Inr (), 0x104)"
    unfolding a by (rule p)
  note c = C8_single_step_when_armed [OF h1 h2 h3 h4]
  have c1: "handler one_region_os 0 single_step_trap ?g =
      Some (Inr EXCEPTION_CONTINUE_EXECUTION, single_step_trap,
            ?g\<lparr>os := 0x104, last_data_address := (last_data_address ?g)(0 := 0)\<rparr>, [])"
    using c by (rule conjunct1)
  have q: "VirtualQuery one_region_os (os ?g) (last_data_address ?g 0) = Some ?mbi
      \<and> last_data_address ?g 0 < last_data_address ?g 0 + 1
      \<and> \<not> last_data_address ?g 0 + RegionSize ?mbi < last_data_address ?g 0 + 1"
    unfolding a by (simp add: one_region_os_def)
  have "Protect ?mbi = Protect ?mbi OR PAGE_GUARD \<and> (0x104 :: DWORD) = os ?g
      \<or> Protect ?mbi \<noteq> Protect ?mbi OR PAGE_GUARD
        \<and> VirtualProtect one_region_os (os ?g) (BaseAddress ?mbi) (min 1 (RegionSize ?mbi))
             (Protect ?mbi OR PAGE_GUARD) = Some 0x104"
    using c [THEN conjunct2, THEN spec, of ?mbi, THEN mp, OF q] .
  then have c2: "VirtualProtect one_region_os 4 0x10000 1 0x104 = Some 0x104"
    unfolding a by (simp add: PAGE_GUARD_def)
  show ?thesis using h1 h2 h3 p c1 c2 by blast
qed

text \<open>
  C10 as stated fails, in three ways.  (1) The handler calls the interceptors
  of the intervals stored in the tree, and an erased interval can still be
  stored there (C5): after four sessions were created on \<open>[10,11]\<close>, \<open>[5,6]\<close>,
  \<open>[20,40]\<close>, \<open>[20,30]\<close> and those with ids 0 and 2 destroyed, the side index
  knows the ids 0, 1 and 3 only, none of whose intervals contains \<open>35\<close>; a
  guard-page violation at \<open>35\<close> calls the interceptor of the destroyed session
  with id 2.  (2) The recorded address \<open>0\<close> means that nothing is recorded: after
  a guard-page violation at the address \<open>0\<close>, which no interval contains, the
  single-step trap is declined.  (3) After a guard-page violation at the
  unwatched address \<open>0x10800\<close>, if \<^verbatim>\<open>VirtualQuery\<close> fails at the single-step trap,
  \<^verbatim>\<open>protect_memory\<close> throws: guarding is not re-applied and the address stays
  recorded.
\<close>

theorem C10_counterexample:
  "id_to_node (interval_tree destroyed_session_process) 0 =
       Some \<lparr>istart = 10, iend = 11, ivalue = 0, iid = 0\<rparr>
   \<and> id_to_node (interval_tree destroyed_session_process) 1 =
       Some \<lparr>istart = 5, iend = 6, ivalue = 1, iid = 1\<rparr>
   \<and> id_to_node (interval_tree destroyed_session_process) 2 = None
   \<and> id_to_node (interval_tree destroyed_session_process) 3 =
       Some \<lparr>istart = 20, iend = 30, ivalue = 3, iid = 3\<rparr>
   \<and> next_id (interval_tree destroyed_session_process) = 4
   \<and> handler one_region_os 0 (guard_fault_at 35) destroyed_session_process =
       Some (Inr EXCEPTION_CONTINUE_EXECUTION, (guard_fault_at 35)\<lparr>EFlags := 0x302\<rparr>,
             destroyed_session_process
               \<lparr>last_data_address := (last_data_address destroyed_session_process)(0 := 35)\<rparr>,
             [(2, 0x401000, False, 35)])
   \<and> \<not> tree_empty (interval_tree (watching [Insert 0x10000 0x10003 ()] 0 0))
   \<and> tree_query (interval_tree (watching [Insert 0x10000 0x10003 ()] 0 0)) 0 = []
   \<and> handler one_region_os 0 (guard_fault_at 0) (watching [Insert 0x10000 0x10003 ()] 0 0) =
       Some (Inr EXCEPTION_CONTINUE_EXECUTION, (guard_fault_at 0)\<lparr>EFlags := 0x302\<rparr>,
             watching [Insert 0x10000 0x10003 ()] 0 0, [])
   \<and> handler one_region_os 0 single_step_trap (watching [Insert 0x10000 0x10003 ()] 0 0) =
       Some (Inr EXCEPTION_CONTINUE_SEARCH, single_step_trap,
             watching [Insert 0x10000 0x10003 ()] 0 0, [])
   \<and> tree_query (interval_tree (watching [Insert 0x10000 0x10003 ()] 0 0)) 0x10800 = []
   \<and> handler one_region_os 0 (guard_fault_at 0x10800) (watching [Insert 0x10000 0x10003 ()] 0 0) =
       Some (Inr EXCEPTION_CONTINUE_EXECUTION, (guard_fault_at 0x10800)\<lparr>EFlags := 0x302\<rparr>,
             watching [Insert 0x10000 0x10003 ()] 0 0x10800, [])
   \<and> handler unqueryable_os 0 single_step_trap (watching [Insert 0x10000 0x10003 ()] 0 0x10800) =
       Some (Inl Failed_to_query_memory, single_step_trap,
             watching [Insert 0x10000 0x10003 ()] 0 0x10800, [])"
proof -
  let ?d = "destroyed_session_process"
  let ?g = "watching [Insert 0x10000 0x10003 ()] 0 0"
  have i0: "id_to_node (interval_tree ?d) 0 = Some \<lparr>istart = 10, iend = 11, ivalue = 0, iid = 0\<rparr>"
    by code_simp
  have i1: "id_to_node (interval_tree ?d) 1 = Some \<lparr>istart = 5, iend = 6, ivalue = 1, iid = 1\<rparr>"
    by code_simp
  have i2: "id_to_node (interval_tree ?d) 2 = None" by code_simp
  have i3: "id_to_node (interval_tree ?d) 3 = Some \<lparr>istart = 20, iend = 30, ivalue = 3, iid = 3\<rparr>"
    by code_simp
  have i4: "next_id (interval_tree ?d) = 4" by code_simp
  have dq: "tree_query (interval_tree ?d) 35 = [\<lparr>istart = 20, iend = 40, ivalue = 2, iid = 2\<rparr>]"
    by code_simp
  have de: "\<not> tree_empty (interval_tree ?d)" by code_simp
  have gc: "ExceptionCode (guard_fault_at a) = STATUS_GUARD_PAGE_VIOLATION" for a
    by (simp add: guard_fault_at_def STATUS_GUARD_PAGE_VIOLATION_def)
  have k: "ExceptionCode single_step_trap = STATUS_SINGLE_STEP"
    by (simp add: single_step_trap_def STATUS_SINGLE_STEP_def)
  have d1: "handler one_region_os 0 (guard_fault_at 35) ?d =
       Some (Inr EXCEPTION_CONTINUE_EXECUTION, (guard_fault_at 35)\<lparr>EFlags := 0x302\<rparr>,
             ?d\<lparr>last_data_address := (last_data_address ?d)(0 := 35)\<rparr>,
             [(2, 0x401000, False, 35)])"
    using handler_guard_fault [OF de gc [of 35], where api = one_region_os and tid = 0] dq
    by (simp add: guard_fault_at_def)
  have t: "root (interval_tree ?g) =
      Node [\<lparr>istart = 0x10000, iend = 0x10003, ivalue = (), iid = 0\<rparr>] 1 0x10003 Null Null"
    by (simp add: watching_def run_def new_tree_def tree_insert_def Let_def)
  have ne: "\<not> tree_empty (interval_tree ?g)" by (simp add: tree_empty_def t)
  have ne': "\<not> tree_empty (interval_tree (watching [Insert 0x10000 0x10003 ()] 0 0x10800))"
    using ne by (simp add: watching_def)
  have q0: "tree_query (interval_tree ?g) 0 = []" by (simp add: tree_query_def t)
  have q1: "tree_query (interval_tree ?g) 0x10800 = []" by (simp add: tree_query_def t)
  have z1: "handler one_region_os 0 (guard_fault_at 0) ?g =
       Some (Inr EXCEPTION_CONTINUE_EXECUTION, (guard_fault_at 0)\<lparr>EFlags := 0x302\<rparr>, ?g, [])"
  proof -
    have "?g\<lparr>last_data_address := (last_data_address ?g)(0 := 0)\<rparr> = ?g"
      by (simp add: watching_def fun_eq_iff)
    then show ?thesis
      using handler_guard_fault [OF ne gc [of 0], where api = one_region_os and tid = 0] q0
      by (simp add: guard_fault_at_def)
  qed
  have z2: "handler one_region_os 0 single_step_trap ?g =
       Some (Inr EXCEPTION_CONTINUE_SEARCH, single_step_trap, ?g, [])"
    using ne k status_codes_differ by (simp add: handler_def watching_def)
  have u1: "handler one_region_os 0 (guard_fault_at 0x10800) ?g =
       Some (Inr EXCEPTION_CONTINUE_EXECUTION, (guard_fault_at 0x10800)\<lparr>EFlags := 0x302\<rparr>,
             watching [Insert 0x10000 0x10003 ()] 0 0x10800, [])"
  proof -
    have "?g\<lparr>last_data_address := (last_data_address ?g)(0 := 0x10800)\<rparr> =
        watching [Insert 0x10000 0x10003 ()] 0 0x10800"
      by (simp add: watching_def fun_eq_iff)
    then show ?thesis
      using handler_guard_fault [OF ne gc [of "0x10800"], where api = one_region_os and tid = 0] q1
      by (simp add: guard_fault_at_def)
  qed
  have f: "protect_memory unqueryable_os 0x10800 1 (\<lambda>protect. protect OR PAGE_GUARD) (4 :: DWORD) =
      Some (Inl Failed_to_query_memory, 4)"
    by (rule protect_memory_query_fails) (simp_all add: unqueryable_os_def)
  have u2: "handler unqueryable_os 0 single_step_trap (watching [Insert 0x10000 0x10003 ()] 0 0x10800) =
       Some (Inl Failed_to_query_memory, single_step_trap,
             watching [Insert 0x10000 0x10003 ()] 0 0x10800, [])"
    using ne' f k status_codes_differ by (simp add: handler_def watching_def)
  show ?thesis using i0 i1 i2 i3 i4 d1 ne q0 z1 z2 q1 u1 u2 by blast
qed

text \<open>
  C10, amended.  With a non-empty registry reached by some sequence of insert
  and erase operations, a guard-page violation at an address that no
  interval stored in the tree contains is consumed: no interceptor is
  called, the single-step flag \<open>0x100\<close> is set, the address is recorded for the
  thread and the handler returns \<^verbatim>\<open>EXCEPTION_CONTINUE_EXECUTION\<close>.  If moreover
  the address is not \<open>0\<close> and the call
  \<^verbatim>\<open>protect_memory(address, 1, protect | PAGE_GUARD)\<close> returns normally with the
  operating system in the state \<open>w'\<close>, then the single-step trap that follows
  (handled in the state the fault left) is consumed as in C8: the recorded
  address is cleared, the operating system is in the state \<open>w'\<close>, and when one
  stride of the loop covers the address, \<open>w'\<close> is the unchanged state if the
  region had the guard bit already, and otherwise the state after
  \<^verbatim>\<open>VirtualProtect\<close> on the base address of the address's region with the guard
  bit added.
\<close>

theorem C10_unwatched_guard_fault:
  assumes "interval_tree g = run ops"
    and "\<not> tree_empty (interval_tree g)"
    and "ExceptionCode ep = STATUS_GUARD_PAGE_VIOLATION"
    and "\<forall>i \<in> set (all_intervals (root (interval_tree g))).
           \<not> (istart i \<le> ExceptionInformation1 ep \<and> ExceptionInformation1 ep \<le> iend i)"
  shows "handler api tid ep g =
           Some (Inr EXCEPTION_CONTINUE_EXECUTION, ep\<lparr>EFlags := EFlags ep OR 0x100\<rparr>,
                 g\<lparr>last_data_address := (last_data_address g)(tid := ExceptionInformation1 ep)\<rparr>,
                 [])
     \<and> (ExceptionInformation1 ep \<noteq> 0 \<and> ExceptionCode ep2 = STATUS_SINGLE_STEP
        \<and> protect_memory api (ExceptionInformation1 ep) 1 (\<lambda>protect. protect OR PAGE_GUARD) (os g)
            = Some (Inr (), w')
        \<longrightarrow> handler api tid ep2
              (g\<lparr>last_data_address := (last_data_address g)(tid := ExceptionInformation1 ep)\<rparr>) =
            Some (Inr EXCEPTION_CONTINUE_EXECUTION, ep2,
                  g\<lparr>os := w', last_data_address := (last_data_address g)(tid := 0)\<rparr>, [])
          \<and> (\<forall>mbi. VirtualQuery api (os g) (ExceptionInformation1 ep) = Some mbi
                \<and> ExceptionInformation1 ep < ExceptionInformation1 ep + 1
                \<and> \<not> ExceptionInformation1 ep + RegionSize mbi < ExceptionInformation1 ep + 1
              \<longrightarrow> Protect mbi = Protect mbi OR PAGE_GUARD \<and> w' = os g
                  \<or> Protect mbi \<noteq> Protect mbi OR PAGE_GUARD
                    \<and> VirtualProtect api (os g) (BaseAddress mbi) (min 1 (RegionSize mbi))
                         (Protect mbi OR PAGE_GUARD) = Some w'))"
proof -
  let ?a = "ExceptionInformation1 ep"
  let ?g' = "g\<lparr>last_data_address := (last_data_address g)(tid := ?a)\<rparr>"
  have "uniform (root (interval_tree g))"
    using tree_inv_run [of ops] assms(1) by (simp add: tree_inv_def)
  then have "tree_query (interval_tree g) ?a = []"
    unfolding tree_query_def using assms(4) by (rule query_empty_when_unwatched)
  then have 1: "handler api tid ep g =
      Some (Inr EXCEPTION_CONTINUE_EXECUTION, ep\<lparr>EFlags := EFlags ep OR 0x100\<rparr>, ?g', [])"
    using handler_guard_fault [OF assms(2,3), of api tid] by simp
  have 2: "handler api tid ep2 ?g' =
      Some (Inr EXCEPTION_CONTINUE_EXECUTION, ep2,
            g\<lparr>os := w', last_data_address := (last_data_address g)(tid := 0)\<rparr>, [])"
    if t: "?a \<noteq> 0" "ExceptionCode ep2 = STATUS_SINGLE_STEP"
      "protect_memory api ?a 1 (\<lambda>protect. protect OR PAGE_GUARD) (os g) = Some (Inr (), w')"
  proof -
    have "handler api tid ep2 ?g' =
      Some (Inr EXCEPTION_CONTINUE_EXECUTION, ep2,
            ?g'\<lparr>os := w', last_data_address := (last_data_address ?g')(tid := 0)\<rparr>, [])"
      using assms(2) t by (intro handler_single_step) simp_all
    then show ?thesis by simp
  qed
  have 3: "Protect mbi = Protect mbi OR PAGE_GUARD \<and> w' = os g
        \<or> Protect mbi \<noteq> Protect mbi OR PAGE_GUARD
          \<and> VirtualProtect api (os g) (BaseAddress mbi) (min 1 (RegionSize mbi))
               (Protect mbi OR PAGE_GUARD) = Some w'"
    if "protect_memory api ?a 1 (\<lambda>protect. protect OR PAGE_GUARD) (os g) = Some (Inr (), w')"
      and "VirtualQuery api (os g) ?a = Some mbi" and "?a < ?a + 1"
      and "\<not> ?a + RegionSize mbi < ?a + 1"
    for mbi
    using protect_memory_one_stride_cases [where pm = "\<lambda>protect. protect OR PAGE_GUARD"
        and sz = 1 and a = ?a and api = api and w = "os g" and mbi = mbi and w' = w'] that
    by simp
  show ?thesis using 1 2 3 by blast
qed

text \<open>
  Witness of C10: the registry watches \<open>[0x10000, 0x10003]\<close>, the fault is at
  \<open>0x10800\<close> in the same region, whose protection goes from \<open>4\<close> to \<open>0x104\<close> at
  the single-step trap.
\<close>

theorem C10_witness:
  "interval_tree (watching [Insert 0x10000 0x10003 ()] 0 0) = run [Insert 0x10000 0x10003 ()]
   \<and> \<not> tree_empty (interval_tree (watching [Insert 0x10000 0x10003 ()] 0 0))
   \<and> all_intervals (root (interval_tree (watching [Insert 0x10000 0x10003 ()] 0 0))) =
       [\<lparr>istart = 0x10000, iend = 0x10003, ivalue = (), iid = 0\<rparr>]
   \<and> \<not> ((0x10800 :: uintptr_t) \<le> 0x10003)
   \<and> protect_memory one_region_os 0x10800 1 (\<lambda>protect. protect OR PAGE_GUARD) (4 :: DWORD) =
       Some (Inr (), 0x104)
   \<and> handler one_region_os 0 (guard_fault_at 0x10800) (watching [Insert 0x10000 0x10003 ()] 0 0) =
       Some (Inr EXCEPTION_CONTINUE_EXECUTION, (guard_fault_at 0x10800)\<lparr>EFlags := 0x302\<rparr>,
             watching [Insert 0x10000 0x10003 ()] 0 0x10800, [])
   \<and> handler one_region_os 0 single_step_trap (watching [Insert 0x10000 0x10003 ()] 0 0x10800) =
       Some (Inr EXCEPTION_CONTINUE_EXECUTION, single_step_trap,
             (watching [Insert 0x10000 0x10003 ()] 0 0)\<lparr>os := 0x104\<rparr>, [])
   \<and> VirtualProtect one_region_os 4 0x10000 1 0x104 = Some 0x104"
proof -
  let ?g = "watching [Insert 0x10000 0x10003 ()] 0 0"
  let ?ep = "guard_fault_at 0x10800"
  let ?mbi = "\<lparr>BaseAddress = 0x10000, RegionSize = 0x1000, Protect = 4\<rparr>"
  have a: "ExceptionInformation1 ?ep = 0x10800" "os ?g = 4" "EFlags ?ep = 0x202"
    by (simp_all add: watching_def guard_fault_at_def)
  have t: "root (interval_tree ?g) =
      Node [\<lparr>istart = 0x10000, iend = 0x10003, ivalue = (), iid = 0\<rparr>] 1 0x10003 Null Null"
    by (simp add: watching_def run_def new_tree_def tree_insert_def Let_def)
  have h1: "interval_tree ?g = run [Insert 0x10000 0x10003 ()]" by (simp add: watching_def)
  have h2: "\<not> tree_empty (interval_tree ?g)" by (simp add: tree_empty_def t)
  have h3: "ExceptionCode ?ep = STATUS_GUARD_PAGE_VIOLATION"
    by (simp add: guard_fault_at_def STATUS_GUARD_PAGE_VIOLATION_def)
  have h4: "\<forall>i \<in> set (all_intervals (root (interval_tree ?g))).
      \<not> (istart i \<le> ExceptionInformation1 ?ep \<and> ExceptionInformation1 ?ep \<le> iend i)"
    unfolding t a by simp
  have h5: "ExceptionInformation1 ?ep \<noteq> 0" unfolding a by simp
  have h6: "ExceptionCode single_step_trap = STATUS_SINGLE_STEP"
    by (simp add: single_step_trap_def STATUS_SINGLE_STEP_def)
  have p: "protect_memory one_region_os 0x10800 1 (\<lambda>protect. protect OR PAGE_GUARD) (4 :: DWORD) =
       Some (Inr (), 0x104)"
    by (rule protect_memory_one_stride [where mbi = ?mbi])
       (simp_all add: one_region_os_def PAGE_GUARD_def)
  have h7: "protect_memory one_region_os (ExceptionInformation1 ?ep) 1
      (\<lambda>protect. protect OR PAGE_GUARD) (os ?g) = Some (Inr (), 0x104)"
    unfolding a by (rule p)
  have q: "VirtualQuery one_region_os (os ?g) (ExceptionInformation1 ?ep) = Some ?mbi
      \<and> ExceptionInformation1 ?ep < ExceptionInformation1 ?ep + 1
      \<and> \<not> ExceptionInformation1 ?ep + RegionSize ?mbi < ExceptionInformation1 ?ep + 1"
    unfolding a by (simp add: one_region_os_def)
  have g1: "?g\<lparr>last_data_address := (last_data_address ?g)(0 := 0x10800)\<rparr> =
      watching [Insert 0x10000 0x10003 ()] 0 0x10800"
    by (simp add: watching_def fun_eq_iff)
  have g2: "?g\<lparr>os := 0x104, last_data_address := (last_data_address ?g)(0 := 0)\<rparr> =
      ?g\<lparr>os := 0x104\<rparr>"
    by (simp add: watching_def fun_eq_iff)
  have h567: "ExceptionInformation1 ?ep \<noteq> 0 \<and> ExceptionCode single_step_trap = STATUS_SINGLE_STEP
      \<and> protect_memory one_region_os (ExceptionInformation1 ?ep) 1
            (\<lambda>protect. protect OR PAGE_GUARD) (os ?g) = Some (Inr (), 0x104)"
    by (intro conjI h5 h6 h7)
  note c = C10_unwatched_guard_fault [OF h1 h2 h3 h4, of one_region_os 0 single_step_trap "0x104"]
  note c' = c [THEN conjunct2, THEN mp, OF h567]
  have c1: "handler one_region_os 0 ?ep ?g =
      Some (Inr EXCEPTION_CONTINUE_EXECUTION, ?ep\<lparr>EFlags := 0x302\<rparr>,
            watching [Insert 0x10000 0x10003 ()] 0 0x10800, [])"
    using c [THEN conjunct1] unfolding a g1 by simp
  have c2: "handler one_region_os 0 single_step_trap (watching [Insert 0x10000 0x10003 ()] 0 0x10800) =
      Some (Inr EXCEPTION_CONTINUE_EXECUTION, single_step_trap, ?g\<lparr>os := 0x104\<rparr>, [])"
    using c' [THEN conjunct1] unfolding a g1 g2 .
  have "Protect ?mbi = Protect ?mbi OR PAGE_GUARD \<and> (0x104 :: DWORD) = os ?g
      \<or> Protect ?mbi \<noteq> Protect ?mbi OR PAGE_GUARD
        \<and> VirtualProtect one_region_os (os ?g) (BaseAddress ?mbi) (min 1 (RegionSize ?mbi))
             (Protect ?mbi OR PAGE_GUARD) = Some 0x104"
    using c' [THEN conjunct2, THEN spec, of ?mbi, THEN mp, OF q] .
  then have c3: "VirtualProtect one_region_os 4 0x10000 1 0x104 = Some 0x104"
    unfolding a by (simp add: PAGE_GUARD_def)
  have t': "all_intervals (root (interval_tree ?g)) =
      [\<lparr>istart = 0x10000, iend = 0x10003, ivalue = (), iid = 0\<rparr>]"
    unfolding t by simp
  have n: "\<not> ((0x10800 :: uintptr_t) \<le> 0x10003)" by simp
  show ?thesis using h1 h2 t' n p c1 c2 c3 by blast
qed

section \<open>Session creation\<close>

lemma failed_create_run:
  "Datamon_ctor unqueryable_os 0x1000 4 () (new_process 4) =
     Some (Inl Failed_to_query_memory, failed_create_state)"
proof -
  have "protect_memory unqueryable_os 0x1000 4 (\<lambda>protect. protect OR PAGE_GUARD) (4::DWORD) =
      Some (Inl Failed_to_query_memory, 4)"
    by (rule protect_memory_query_fails) (simp_all add: unqueryable_os_def)
  then show ?thesis
    by (simp add: Datamon_ctor_def new_process_def unqueryable_os_def one_region_os_def
        Let_def run_def tree_insert_def new_tree_def failed_create_state_def)
qed

text \<open>
  C2 as stated fails: nothing is rolled back.  With an operating system whose
  \<^verbatim>\<open>VirtualQuery\<close> fails, the constructor throws "Failed to query memory."; in
  the state it leaves, the registry returns the new interval for a point
  inside it, and the reference count is \<open>1\<close>.
\<close>

theorem C2_counterexample:
  "Datamon_ctor unqueryable_os 0x1000 4 () (new_process 4) \<noteq> None
   \<and> fst (the (Datamon_ctor unqueryable_os 0x1000 4 () (new_process 4))) = Inl Failed_to_query_memory
   \<and> tree_query (interval_tree (snd (the (Datamon_ctor unqueryable_os 0x1000 4 () (new_process 4)))))
        0x1002 = [\<lparr>istart = 0x1000, iend = 0x1004, ivalue = (), iid = 0\<rparr>]
   \<and> veh_refcount (snd (the (Datamon_ctor unqueryable_os 0x1000 4 () (new_process 4)))) = 1"
  unfolding failed_create_run
  by (simp add: failed_create_state_def tree_query_def run_def tree_insert_def new_tree_def Let_def)

text \<open>
  C2, amended.  Session creation on a registry reached by some sequence of
  insert and erase operations, where the handler is installed already or
  its installation succeeds (\<^verbatim>\<open>AddVectoredExceptionHandler\<close> returns a handle
  \<open>h\<close> other than \<open>0\<close>): if the guarding step fails, that is
  \<^verbatim>\<open>protect_memory(address, size, protect | PAGE_GUARD)\<close> throws the error \<open>e\<close>,
  then the constructor throws \<open>e\<close> to its caller and the insert is not rolled
  back: the state it leaves has the reference count incremented and the
  registry that the insert produced, which stores the new interval under the
  id assigned to it; the side index maps that id to it, and the query at
  every point of the interval returns it.
\<close>

theorem C2_failed_create_keeps_entry:
  assumes "interval_tree g = run ops"
    and "AddVectoredExceptionHandler api (os g) = (h, w1)"
    and "veh_refcount g \<noteq> 0 \<or> h \<noteq> 0"
    and "protect_memory api address sz (\<lambda>protect. protect OR PAGE_GUARD)
           (if veh_refcount g = 0 then w1 else os g) = Some (Inl e, w')"
  shows "let i = \<lparr>istart = address, iend = address + sz, ivalue = interceptor,
                  iid = next_id (interval_tree g)\<rparr>;
             t' = snd (tree_insert \<lparr>istart = address, iend = address + sz, ivalue = interceptor,
                                    iid = 0\<rparr> (interval_tree g))
         in Datamon_ctor api address sz interceptor g =
              Some (Inl e, g\<lparr>veh_refcount := veh_refcount g + 1,
                             veh_handle := (if veh_refcount g = 0 then h else veh_handle g),
                             interval_tree := t', os := w'\<rparr>)
            \<and> i \<in> set (all_intervals (root t'))
            \<and> id_to_node t' (iid i) = Some i
            \<and> (\<forall>p. address \<le> p \<and> p \<le> address + sz \<longrightarrow> i \<in> set (tree_query t' p))"
proof -
  let ?i = "\<lparr>istart = address, iend = address + sz, ivalue = interceptor,
          iid = next_id (interval_tree g)\<rparr>"
  let ?t = "snd (tree_insert \<lparr>istart = address, iend = address + sz, ivalue = interceptor,
                                    iid = 0\<rparr> (interval_tree g))"
  have c: "Datamon_ctor api address sz interceptor g =
      Some (Inl e, g\<lparr>veh_refcount := veh_refcount g + 1,
                     veh_handle := (if veh_refcount g = 0 then h else veh_handle g),
                     interval_tree := ?t, os := w'\<rparr>)"
  proof (cases "veh_refcount g = 0")
    case True
    then show ?thesis using assms(2-4)
      by (simp add: Datamon_ctor_def Let_def case_prod_beta)
  next
    case False
    then show ?thesis using assms(4)
      by (simp add: Datamon_ctor_def Let_def case_prod_beta)
  qed
  have inv: "avl (root (interval_tree g))" "uniform (root (interval_tree g))"
    "sorted_starts (root (interval_tree g))"
    using tree_inv_run [of ops] assms(1) by (simp_all add: tree_inv_def)
  have r: "root ?t = insert_node (root (interval_tree g)) ?i"
    by (simp add: tree_insert_def Let_def)
  have m: "?i \<in> set (all_intervals (root ?t))"
    unfolding r sorted_insert_node(2) [OF inv] by simp
  have s: "id_to_node ?t (iid ?i) = Some ?i"
    by (simp add: tree_insert_def Let_def)
  have "?t = run (ops @ [Insert address (address + sz) interceptor])"
    unfolding run_snoc using assms(1) by simp
  then have "set (tree_query ?t p) =
      {j \<in> set (all_intervals (root ?t)). istart j \<le> p \<and> p \<le> iend j}" for p
    using query_stored_exact [of "ops @ [Insert address (address + sz) interceptor]" p] by simp
  then have q: "?i \<in> set (tree_query ?t p)" if "address \<le> p \<and> p \<le> address + sz" for p
    using m that by simp
  show ?thesis unfolding Let_def using c m s q by blast
qed

text \<open>
  Witness of C2: the failed creation of the counterexample.
\<close>

theorem C2_witness:
  "interval_tree (new_process 4 :: (unit, DWORD) process) = run []
   \<and> AddVectoredExceptionHandler unqueryable_os (os (new_process 4 :: (unit, DWORD) process)) = (1, 4)
   \<and> (1 :: uintptr_t) \<noteq> 0
   \<and> protect_memory unqueryable_os 0x1000 4 (\<lambda>protect. protect OR PAGE_GUARD) (4 :: DWORD) =
       Some (Inl Failed_to_query_memory, 4)
   \<and> Datamon_ctor unqueryable_os 0x1000 4 () (new_process 4) =
       Some (Inl Failed_to_query_memory, failed_create_state)
   \<and> \<lparr>istart = 0x1000, iend = 0x1004, ivalue = (), iid = 0\<rparr>
       \<in> set (all_intervals (root (interval_tree failed_create_state)))
   \<and> id_to_node (interval_tree failed_create_state) 0 =
       Some \<lparr>istart = 0x1000, iend = 0x1004, ivalue = (), iid = 0\<rparr>
   \<and> \<lparr>istart = 0x1000, iend = 0x1004, ivalue = (), iid = 0\<rparr>
       \<in> set (tree_query (interval_tree failed_create_state) 0x1002)"
proof -
  let ?g = "new_process 4 :: (unit, DWORD) process"
  let ?i = "\<lparr>istart = 0x1000 :: uintptr_t, iend = 0x1004, ivalue = (), iid = 0 :: size_t\<rparr>"
  have h1: "interval_tree ?g = run []" by (simp add: new_process_def run_def)
  have h2: "AddVectoredExceptionHandler unqueryable_os (os ?g) = (1, 4)"
    by (simp add: new_process_def unqueryable_os_def one_region_os_def)
  have n: "(1 :: uintptr_t) \<noteq> 0" by simp
  then have h3: "veh_refcount ?g \<noteq> 0 \<or> (1 :: uintptr_t) \<noteq> 0" by simp
  have p: "protect_memory unqueryable_os 0x1000 4 (\<lambda>protect. protect OR PAGE_GUARD) (4 :: DWORD) =
      Some (Inl Failed_to_query_memory, 4)"
    by (rule protect_memory_query_fails) (simp_all add: unqueryable_os_def)
  have h4: "protect_memory unqueryable_os 0x1000 4 (\<lambda>protect. protect OR PAGE_GUARD)
      (if veh_refcount ?g = 0 then 4 else os ?g) = Some (Inl Failed_to_query_memory, 4)"
    using p by (simp add: new_process_def)
  have st: "?g\<lparr>veh_refcount := veh_refcount ?g + 1,
        veh_handle := (if veh_refcount ?g = 0 then 1 else veh_handle ?g),
        interval_tree := snd (tree_insert \<lparr>istart = 0x1000, iend = 0x1000 + 4, ivalue = (),
                                          iid = 0\<rparr> (interval_tree ?g)),
        os := 4\<rparr> = failed_create_state"
    by (simp add: new_process_def failed_create_state_def run_def)
  have nx: "next_id (interval_tree ?g) = 0" by (simp add: new_process_def new_tree_def)
  have it: "snd (tree_insert \<lparr>istart = 0x1000, iend = 0x1004, ivalue = (), iid = 0\<rparr>
      (interval_tree ?g)) = interval_tree failed_create_state"
    by (simp add: new_process_def failed_create_state_def run_def)
  have e: "(0x1000 :: uintptr_t) + 4 = 0x1004" by simp
  note c = C2_failed_create_keeps_entry [OF h1 h2 h3 h4, of "()", unfolded Let_def]
  have c1: "Datamon_ctor unqueryable_os 0x1000 4 () ?g =
      Some (Inl Failed_to_query_memory, failed_create_state)"
    using c [THEN conjunct1] unfolding st .
  have c2: "?i \<in> set (all_intervals (root (interval_tree failed_create_state)))"
    using c [THEN conjunct2, THEN conjunct1] unfolding e nx it .
  have c3: "id_to_node (interval_tree failed_create_state) 0 = Some ?i"
    using c [THEN conjunct2, THEN conjunct2, THEN conjunct1] unfolding e nx it
    by simp
  have b: "(0x1000 :: uintptr_t) \<le> 0x1002 \<and> (0x1002 :: uintptr_t) \<le> 0x1000 + 4" by simp
  have c4: "?i \<in> set (tree_query (interval_tree failed_create_state) 0x1002)"
    using c [THEN conjunct2, THEN conjunct2, THEN conjunct2, THEN spec, of "0x1002", THEN mp, OF b]
    unfolding e nx it .
  show ?thesis using h1 h2 n p c1 c2 c3 c4 by blast
qed

end
